theory Spec2Isabelle
  imports Main
begin

section \<open>Settings and data of \<^verbatim>\<open>main.py\<close>\<close>

definition TRIES_LIMIT :: nat where
  "TRIES_LIMIT = 6"

definition WORD_LENGTH :: nat where
  "WORD_LENGTH = 5"

text \<open>The exceptions the modelled code can raise: an index out of range of a string or a
  list, a key missing from a dictionary, and the end of the input.\<close>

datatype py_error = IndexError | KeyError | EOFError

subsection \<open>The part of \<^verbatim>\<open>rich.text.Text\<close> the program uses\<close>

text \<open>
  The three \<^verbatim>\<open>Style\<close> values of \<^verbatim>\<open>color_guess\<close> (black on green, black on yellow, black
  on \<^verbatim>\<open>#666666\<close>). Styles compare by their attributes, so the three are distinct values.
\<close>

datatype style = green_style | yellow_style | no_style

text \<open>\<^verbatim>\<open>Span(start, end, style)\<close> is a named tuple and compares field by field.\<close>

datatype span = Span (span_start: nat) (span_end: nat) (span_style: style)

record rich_text =
  plain :: string
  spans :: "span list"

text \<open>\<^verbatim>\<open>Text(s)\<close>, for a string without control characters (the constructor removes those).\<close>

definition Text :: "string \<Rightarrow> rich_text" where
  "Text s = \<lparr>plain = s, spans = []\<rparr>"

text \<open>
  \<^verbatim>\<open>Text.stylize(style, start, end)\<close> appends a span, \<^verbatim>\<open>Text.stylize_before\<close> inserts it
  at the front of the span list; both do nothing when the range lies outside the text. The
  end defaults to the length of the text (\<open>None\<close>). Only non-negative offsets are passed
  by the program.
\<close>

definition stylize :: "style \<Rightarrow> nat \<Rightarrow> nat option \<Rightarrow> rich_text \<Rightarrow> rich_text" where
  "stylize sty st en t =
     (let n = length (plain t);
          e = (case en of None \<Rightarrow> n | Some e' \<Rightarrow> e')
      in if n \<le> st \<or> e \<le> st then t
         else t\<lparr>spans := spans t @ [Span st (min n e) sty]\<rparr>)"

definition stylize_before :: "style \<Rightarrow> nat \<Rightarrow> nat option \<Rightarrow> rich_text \<Rightarrow> rich_text" where
  "stylize_before sty st en t =
     (let n = length (plain t);
          e = (case en of None \<Rightarrow> n | Some e' \<Rightarrow> e')
      in if n \<le> st \<or> e \<le> st then t
         else t\<lparr>spans := Span st (min n e) sty # spans t\<rparr>)"

text \<open>
  Rendering combines the styles of the spans that cover a position in the order of the span
  list, a later span overriding the attributes an earlier one set. The three styles set the
  same attributes, so the style shown at a position is that of the last span covering it.
\<close>

definition style_at :: "rich_text \<Rightarrow> nat \<Rightarrow> style option" where
  "style_at t i =
     (case filter (\<lambda>sp. span_start sp \<le> i \<and> i < span_end sp) (spans t) of
        [] \<Rightarrow> None
      | sp # sps \<Rightarrow> Some (span_style (last (sp # sps))))"

subsection \<open>Classification read off the styles\<close>

datatype status = Unseen | Absent | Present | Correct

fun rank :: "status \<Rightarrow> nat" where
  "rank Unseen = 0"
| "rank Absent = 1"
| "rank Present = 2"
| "rank Correct = 3"

fun status_of :: "style option \<Rightarrow> status" where
  "status_of None = Unseen"
| "status_of (Some no_style) = Absent"
| "status_of (Some yellow_style) = Present"
| "status_of (Some green_style) = Correct"

text \<open>The classification of position \<open>i\<close> of a styled guess, and of the whole guess.\<close>

definition classify :: "rich_text \<Rightarrow> nat \<Rightarrow> status" where
  "classify t i = status_of (style_at t i)"

definition classification :: "rich_text \<Rightarrow> status list" where
  "classification t = map (classify t) [0..<length (plain t)]"

subsection \<open>The process-wide letter statuses\<close>

type_synonym letter_status = "char \<rightharpoonup> rich_text"

definition alphabet :: string where
  "alphabet = ''ABCDEFGHIJKLMNOPQRSTUVWXYZ''"

definition LETTER_STATUS :: letter_status where
  "LETTER_STATUS = map_of (map (\<lambda>letter. (letter, Text [CHR '' '', letter, CHR '' ''])) alphabet)"

text \<open>The status a letter is shown with in the legend: the style of the whole of its text.\<close>

definition letter_state :: "letter_status \<Rightarrow> char \<Rightarrow> status" where
  "letter_state ls letter =
     (case ls letter of None \<Rightarrow> Unseen | Some t \<Rightarrow> status_of (style_at t 0))"

section \<open>\<^verbatim>\<open>letter_freq\<close>\<close>

fun letter_freq_loop :: "string \<Rightarrow> (char \<rightharpoonup> int) \<Rightarrow> (char \<rightharpoonup> int)" where
  "letter_freq_loop [] freqs = freqs"
| "letter_freq_loop (letter # rest) freqs =
     letter_freq_loop rest
       (case freqs letter of
          Some n \<Rightarrow> freqs(letter \<mapsto> n + 1)
        | None \<Rightarrow> freqs(letter \<mapsto> 1))"

definition letter_freq :: "string \<Rightarrow> (char \<rightharpoonup> int)" where
  "letter_freq str = letter_freq_loop str Map.empty"

section \<open>\<^verbatim>\<open>color_guess\<close>\<close>

text \<open>
  The two locals the loops of \<^verbatim>\<open>color_guess\<close> update, and the global dictionary.
\<close>

record color_state =
  pretty_guess :: rich_text
  wordle_freq :: "char \<rightharpoonup> int"
  statuses :: letter_status

text \<open>One iteration of the first loop (lines 192 to 198).\<close>

definition green_step :: "string \<Rightarrow> string \<Rightarrow> nat \<Rightarrow> color_state \<Rightarrow> py_error + color_state" where
  "green_step guess wordle i st =
     (if length guess \<le> i then Inl IndexError
      else let letter = guess ! i in
        if length wordle \<le> i then Inl IndexError
        else if letter \<noteq> wordle ! i then Inr st
        else (case wordle_freq st letter of
                None \<Rightarrow> Inl KeyError
              | Some n \<Rightarrow>
                  if \<not> 0 < n then Inr st
                  else (case statuses st letter of
                          None \<Rightarrow> Inl KeyError
                        | Some t \<Rightarrow>
                            Inr \<lparr>pretty_guess = stylize green_style i (Some (i + 1)) (pretty_guess st),
                                 wordle_freq = (wordle_freq st)(letter \<mapsto> n - 1),
                                 statuses = (statuses st)(letter \<mapsto> stylize green_style 0 None t)\<rparr>)))"

text \<open>
  One iteration of the second loop (lines 201 to 214). \<open>paint\<close> is what its two branches
  share: the guess gets the style at position \<open>i\<close>, and the letter's status text gets it
  before its other styles.
\<close>

definition paint :: "style \<Rightarrow> char \<Rightarrow> nat \<Rightarrow> color_state \<Rightarrow> py_error + color_state" where
  "paint sty letter i st =
     (case statuses st letter of
        None \<Rightarrow> Inl KeyError
      | Some t \<Rightarrow>
          Inr (st\<lparr>pretty_guess := stylize sty i (Some (i + 1)) (pretty_guess st),
                  statuses := (statuses st)(letter \<mapsto> stylize_before sty 0 None t)\<rparr>))"

definition other_step :: "string \<Rightarrow> string \<Rightarrow> nat \<Rightarrow> color_state \<Rightarrow> py_error + color_state" where
  "other_step guess wordle i st =
     (if Span i (i + 1) green_style \<in> set (spans (pretty_guess st)) then Inr st
      else if length guess \<le> i then Inl IndexError
      else let letter = guess ! i in
        if letter \<in> set wordle then
          (case wordle_freq st letter of
             None \<Rightarrow> Inl KeyError
           | Some n \<Rightarrow>
               if 0 < n then
                 (case paint yellow_style letter i st of
                    Inl e \<Rightarrow> Inl e
                  | Inr st' \<Rightarrow> Inr (st'\<lparr>wordle_freq := (wordle_freq st')(letter \<mapsto> n - 1)\<rparr>))
               else paint no_style letter i st)
        else paint no_style letter i st)"

text \<open>
  A \<^verbatim>\<open>for i in range(...)\<close> loop. When an iteration raises, the locals are lost and the
  global dictionary stays as it was when the iteration began: every statement of the two
  loop bodies that can raise comes before the body's write to \<^verbatim>\<open>LETTER_STATUS\<close>.
\<close>

fun run_pass ::
  "(nat \<Rightarrow> color_state \<Rightarrow> py_error + color_state) \<Rightarrow> nat list \<Rightarrow> color_state
     \<Rightarrow> (py_error \<times> letter_status) + color_state" where
  "run_pass body [] st = Inr st"
| "run_pass body (i # is) st =
     (case body i st of
        Inl e \<Rightarrow> Inl (e, statuses st)
      | Inr st' \<Rightarrow> run_pass body is st')"

text \<open>
  \<^verbatim>\<open>color_guess(guess, wordle)\<close>, with the dictionary \<^verbatim>\<open>LETTER_STATUS\<close> passed in and
  returned: the result is the styled guess or the exception, and the dictionary afterwards.
\<close>

definition color_guess ::
  "letter_status \<Rightarrow> string \<Rightarrow> string \<Rightarrow> (py_error + rich_text) \<times> letter_status" where
  "color_guess ls guess wordle =
     (case run_pass (green_step guess wordle) [0..<WORD_LENGTH]
             \<lparr>pretty_guess = Text guess, wordle_freq = letter_freq wordle, statuses = ls\<rparr> of
        Inl (e, ls') \<Rightarrow> (Inl e, ls')
      | Inr st1 \<Rightarrow>
          (case run_pass (other_step guess wordle) [0..<WORD_LENGTH] st1 of
             Inl (e, ls') \<Rightarrow> (Inl e, ls')
           | Inr st2 \<Rightarrow> (Inr (pretty_guess st2), statuses st2)))"

section \<open>The round: \<^verbatim>\<open>read_input\<close>, \<^verbatim>\<open>add_to_board\<close> and \<^verbatim>\<open>game\<close>\<close>

text \<open>
  The state of a round: the board, the guesses the player is still to enter, and the global
  \<^verbatim>\<open>LETTER_STATUS\<close>. The local \<^verbatim>\<open>tries\<close> is an argument of the loop. Printing is left out.

  \<^verbatim>\<open>read_input\<close> asks again until the line read has \<^verbatim>\<open>WORD_LENGTH\<close> characters and is in
  \<^verbatim>\<open>WORDLIST\<close>; \<open>pending\<close> holds the guesses it returns, in order, and the model of
  \<^verbatim>\<open>read_input\<close> takes the next one. When there is none, \<^verbatim>\<open>input\<close> raises \<^verbatim>\<open>EOFError\<close>.
\<close>

record game_state =
  board :: "rich_text list"
  pending :: "string list"
  letters :: letter_status

definition read_input :: "game_state \<Rightarrow> (py_error + string) \<times> game_state" where
  "read_input st =
     (case pending st of
        [] \<Rightarrow> (Inl EOFError, st)
      | guess # rest \<Rightarrow> (Inr guess, st\<lparr>pending := rest\<rparr>))"

text \<open>\<^verbatim>\<open>add_to_board\<close>: the guess is styled and stored at \<^verbatim>\<open>board[tries]\<close>.\<close>

definition add_to_board ::
  "string \<Rightarrow> string \<Rightarrow> nat \<Rightarrow> game_state \<Rightarrow> (py_error + unit) \<times> game_state" where
  "add_to_board guess wordle tries st =
     (case color_guess (letters st) guess wordle of
        (Inl e, ls') \<Rightarrow> (Inl e, st\<lparr>letters := ls'\<rparr>)
      | (Inr styled, ls') \<Rightarrow>
          if length (board st) \<le> tries then (Inl IndexError, st\<lparr>letters := ls'\<rparr>)
          else (Inr (), st\<lparr>board := (board st)[tries := styled], letters := ls'\<rparr>))"

text \<open>
  The \<^verbatim>\<open>while tries < TRIES_LIMIT\<close> loop of \<^verbatim>\<open>game\<close> (lines 89 to 97): the result is
  \<^verbatim>\<open>True\<close>, \<^verbatim>\<open>False\<close> or the exception that ended the round.
\<close>

function game_loop :: "string \<Rightarrow> nat \<Rightarrow> game_state \<Rightarrow> (py_error + bool) \<times> game_state" where
  "game_loop wordle tries st =
     (if tries < TRIES_LIMIT then
        (case read_input st of
           (Inl e, st1) \<Rightarrow> (Inl e, st1)
         | (Inr guess, st1) \<Rightarrow>
             (case add_to_board guess wordle tries st1 of
                (Inl e, st2) \<Rightarrow> (Inl e, st2)
              | (Inr u, st2) \<Rightarrow>
                  if guess = wordle then (Inr True, st2)
                  else game_loop wordle (tries + 1) st2))
      else (Inr False, st))"
  by pat_completeness auto
termination
  by (relation "measure (\<lambda>(wordle, tries, st). TRIES_LIMIT - tries)") auto

text \<open>
  \<^verbatim>\<open>game(wordle)\<close>, for the guesses the player enters and the dictionary the process holds
  when the round starts.
\<close>

definition game :: "string \<Rightarrow> string list \<Rightarrow> letter_status \<Rightarrow> (py_error + bool) \<times> game_state" where
  "game wordle guesses ls =
     game_loop wordle 0
       \<lparr>board = replicate TRIES_LIMIT (Text ''_____''), pending = guesses, letters = ls\<rparr>"

section \<open>Notions used in the statements and proofs\<close>

subsection \<open>Sequences of calls\<close>

text \<open>
  The dictionary after a sequence of calls \<^verbatim>\<open>color_guess(guess, wordle)\<close>, and after the
  guesses of one round, which all have the same secret word.
\<close>

definition after_calls :: "letter_status \<Rightarrow> (string \<times> string) list \<Rightarrow> letter_status" where
  "after_calls ls calls = fold (\<lambda>(guess, wordle) ls'. snd (color_guess ls' guess wordle)) calls ls"

definition round_statuses :: "string \<Rightarrow> letter_status \<Rightarrow> string list \<Rightarrow> letter_status" where
  "round_statuses wordle ls guesses = fold (\<lambda>guess ls'. snd (color_guess ls' guess wordle)) guesses ls"

subsection \<open>What a call may change in the dictionary\<close>

text \<open>
  \<open>restyled A ls ls'\<close>: the dictionary \<open>ls'\<close> has the keys and texts of \<open>ls\<close>, differs
  from it only at letters of \<open>A\<close>, and shows no letter with a lower status.
  \<open>same_locals\<close> relates two runs of a loop whose dictionaries have the same keys.
\<close>

definition shown :: "rich_text \<Rightarrow> status" where
  "shown t = status_of (style_at t 0)"

definition restyled :: "char set \<Rightarrow> letter_status \<Rightarrow> letter_status \<Rightarrow> bool" where
  "restyled A ls ls' \<longleftrightarrow>
     (\<forall>c. (c \<notin> A \<longrightarrow> ls' c = ls c) \<and>
          rel_option (\<lambda>t t'. plain t' = plain t \<and> rank (shown t) \<le> rank (shown t')) (ls c) (ls' c))"

definition same_locals :: "color_state \<Rightarrow> color_state \<Rightarrow> bool" where
  "same_locals st st' \<longleftrightarrow> pretty_guess st = pretty_guess st' \<and> wordle_freq st = wordle_freq st'
     \<and> dom (statuses st) = dom (statuses st')"

subsection \<open>The states of the two loops in closed form\<close>

text \<open>
  For a guess \<open>g\<close> and a secret word \<open>s\<close>: the positions below \<open>n\<close> where the letter
  \<open>c\<close> is an exact match, and those where the guess has \<open>c\<close> and the secret word another
  letter; the count of \<open>c\<close> left after the first loop; the positions the second loop
  colours yellow; and the state after \<open>n\<close> iterations of the first and of the second loop
  (lemmas \<open>green_pass\<close> and \<open>other_pass\<close>).
\<close>

definition exact :: "string \<Rightarrow> string \<Rightarrow> char \<Rightarrow> nat \<Rightarrow> nat list" where
  "exact g s c n = filter (\<lambda>i. g ! i = c \<and> s ! i = c) [0..<n]"

definition misplaced :: "string \<Rightarrow> string \<Rightarrow> char \<Rightarrow> nat \<Rightarrow> nat list" where
  "misplaced g s c n = filter (\<lambda>i. g ! i = c \<and> s ! i \<noteq> c) [0..<n]"

definition budget :: "string \<Rightarrow> string \<Rightarrow> char \<Rightarrow> int" where
  "budget g s c = int (count_list s c) - int (length (exact g s c WORD_LENGTH))"

definition yellow_at :: "string \<Rightarrow> string \<Rightarrow> nat \<Rightarrow> bool" where
  "yellow_at g s i \<longleftrightarrow> g ! i \<in> set s \<and> int (length (misplaced g s (g ! i) i)) < budget g s (g ! i)"

definition second_style :: "string \<Rightarrow> string \<Rightarrow> nat \<Rightarrow> style" where
  "second_style g s i = (if yellow_at g s i then yellow_style else no_style)"

definition green_spans :: "string \<Rightarrow> string \<Rightarrow> nat \<Rightarrow> span list" where
  "green_spans g s n = map (\<lambda>i. Span i (Suc i) green_style) (filter (\<lambda>i. g ! i = s ! i) [0..<n])"

definition green_state :: "string \<Rightarrow> string \<Rightarrow> letter_status \<Rightarrow> nat \<Rightarrow> color_state" where
  "green_state g s ls n =
     \<lparr>pretty_guess = \<lparr>plain = g, spans = green_spans g s n\<rparr>,
      wordle_freq = (\<lambda>c. if c \<in> set s
                         then Some (int (count_list s c) - int (length (exact g s c n))) else None),
      statuses = (\<lambda>c. map_option (fold (\<lambda>i. stylize green_style 0 None) (exact g s c n)) (ls c))\<rparr>"

definition other_spans :: "string \<Rightarrow> string \<Rightarrow> nat \<Rightarrow> span list" where
  "other_spans g s n =
     map (\<lambda>i. Span i (Suc i) (second_style g s i)) (filter (\<lambda>i. g ! i \<noteq> s ! i) [0..<n])"

definition other_state :: "string \<Rightarrow> string \<Rightarrow> letter_status \<Rightarrow> nat \<Rightarrow> color_state" where
  "other_state g s ls n =
     \<lparr>pretty_guess = \<lparr>plain = g, spans = green_spans g s WORD_LENGTH @ other_spans g s n\<rparr>,
      wordle_freq = (\<lambda>c. if c \<in> set s
                         then Some (max 0 (budget g s c - int (length (misplaced g s c n)))) else None),
      statuses = (\<lambda>c. map_option
                         (fold (\<lambda>i. stylize_before (second_style g s i) 0 None) (misplaced g s c n))
                         (statuses (green_state g s ls WORD_LENGTH) c))\<rparr>"

subsection \<open>Well-formed inputs\<close>

text \<open>
  \<open>letters_kept ls\<close>: the dictionary holds the 26 letters with the texts they were created
  with, whatever their styles. \<open>valid_guess\<close>: a word of \<^verbatim>\<open>WORD_LENGTH\<close> uppercase
  letters. \<open>playable\<close>: the inputs on which \<^verbatim>\<open>color_guess\<close> is characterised below.
\<close>

definition letters_kept :: "letter_status \<Rightarrow> bool" where
  "letters_kept ls \<longleftrightarrow> (\<forall>c. map_option plain (ls c) = map_option plain (LETTER_STATUS c))"

definition playable :: "letter_status \<Rightarrow> string \<Rightarrow> string \<Rightarrow> bool" where
  "playable ls guess wordle \<longleftrightarrow>
     length guess = WORD_LENGTH \<and> WORD_LENGTH \<le> length wordle
     \<and> set guess \<subseteq> set alphabet \<and> letters_kept ls"

subsection \<open>Reading a styled guess\<close>

text \<open>
  The positions of the guess that hold \<open>X\<close> and are classified Correct or Present; the
  classification the two loops are shown to compute; whether some position holding \<open>X\<close>
  has a given classification; whether \<open>X\<close> is among the first \<^verbatim>\<open>WORD_LENGTH\<close> letters.
\<close>

definition colored :: "rich_text \<Rightarrow> string \<Rightarrow> char \<Rightarrow> nat list" where
  "colored t guess X =
     filter (\<lambda>i. guess ! i = X \<and> (classify t i = Correct \<or> classify t i = Present)) [0..<WORD_LENGTH]"

definition expected :: "string \<Rightarrow> string \<Rightarrow> nat \<Rightarrow> status" where
  "expected g s i =
     (if g ! i = s ! i then Correct else if yellow_at g s i then Present else Absent)"

definition occurs_as :: "rich_text \<Rightarrow> string \<Rightarrow> char \<Rightarrow> status \<Rightarrow> bool" where
  "occurs_as t guess X c \<longleftrightarrow> (\<exists>i<WORD_LENGTH. guess ! i = X \<and> classify t i = c)"

definition occurs :: "string \<Rightarrow> char \<Rightarrow> bool" where
  "occurs guess X \<longleftrightarrow> (\<exists>i<WORD_LENGTH. guess ! i = X)"

text \<open>
  The dictionaries met in a round that starts from the initial dictionary: a letter shown
  Absent is not in the secret word.
\<close>

definition round_consistent :: "string \<Rightarrow> letter_status \<Rightarrow> bool" where
  "round_consistent wordle ls \<longleftrightarrow>
     letters_kept ls \<and> (\<forall>X. letter_state ls X = Absent \<longrightarrow> X \<notin> set wordle)"

definition valid_guess :: "string \<Rightarrow> bool" where
  "valid_guess guess \<longleftrightarrow> length guess = WORD_LENGTH \<and> set guess \<subseteq> set alphabet"

section \<open>Lemmas\<close>

subsection \<open>Every call keeps the keys and texts and never lowers a status\<close>

lemma restyled_refl: "restyled A ls ls"
  by (simp add: restyled_def option.rel_refl)

lemma restyled_trans: "restyled A ls ls' \<Longrightarrow> restyled A ls' ls'' \<Longrightarrow> restyled A ls ls''"
  unfolding restyled_def
proof (intro allI conjI)
  fix c
  assume a: "\<forall>c. (c \<notin> A \<longrightarrow> ls' c = ls c) \<and> rel_option (\<lambda>t t'. plain t' = plain t \<and> rank (shown t) \<le> rank (shown t')) (ls c) (ls' c)"
    and b: "\<forall>c. (c \<notin> A \<longrightarrow> ls'' c = ls' c) \<and> rel_option (\<lambda>t t'. plain t' = plain t \<and> rank (shown t) \<le> rank (shown t')) (ls' c) (ls'' c)"
  show "c \<notin> A \<longrightarrow> ls'' c = ls c" using a b by simp
  from a b show "rel_option (\<lambda>t t'. plain t' = plain t \<and> rank (shown t) \<le> rank (shown t')) (ls c) (ls'' c)"
    by (cases "ls c"; cases "ls' c"; cases "ls'' c") (auto dest!: spec[of _ c])
qed

lemma restyled_upd:
  "ls c = Some t \<Longrightarrow> c \<in> A \<Longrightarrow> plain t' = plain t \<Longrightarrow> rank (shown t) \<le> rank (shown t')
     \<Longrightarrow> restyled A ls (ls(c \<mapsto> t'))"
  by (simp add: restyled_def option.rel_refl)

lemma plain_stylize [simp]: "plain (stylize sty a b t) = plain t"
  by (simp add: stylize_def Let_def)

lemma plain_stylize_before [simp]: "plain (stylize_before sty a b t) = plain t"
  by (simp add: stylize_before_def Let_def)

lemma style_at_alt:
  "style_at t i =
     (let xs = filter (\<lambda>sp. span_start sp \<le> i \<and> i < span_end sp) (spans t)
      in if xs = [] then None else Some (span_style (last xs)))"
  by (simp add: style_at_def Let_def split: list.splits)

lemma style_at_stylize:
  "style_at (stylize sty 0 None t) 0 = (if plain t = [] then style_at t 0 else Some sty)"
  by (simp add: stylize_def style_at_alt Let_def)

lemma style_at_stylize_before:
  "style_at (stylize_before sty 0 None t) 0 =
     (if plain t = [] then style_at t 0
      else case style_at t 0 of None \<Rightarrow> Some sty | Some x \<Rightarrow> Some x)"
  by (simp add: stylize_before_def style_at_alt Let_def)

lemma rank_le_Correct: "rank x \<le> 3"
  by (cases x) simp_all

lemma shown_stylize_green: "rank (shown t) \<le> rank (shown (stylize green_style 0 None t))"
  by (simp add: shown_def style_at_stylize rank_le_Correct)

lemma shown_stylize_before: "rank (shown t) \<le> rank (shown (stylize_before sty 0 None t))"
  by (simp add: shown_def style_at_stylize_before split: option.splits)

lemma restyled_green:
  assumes "ls c = Some t" "c \<in> A"
  shows "restyled A ls (ls(c \<mapsto> stylize green_style 0 None t))"
  by (rule restyled_upd[where ls=ls and c=c and t=t, OF assms]) (simp_all add: shown_stylize_green)

lemma restyled_before:
  assumes "ls c = Some t" "c \<in> A"
  shows "restyled A ls (ls(c \<mapsto> stylize_before sty 0 None t))"
  by (rule restyled_upd[where ls=ls and c=c and t=t, OF assms]) (simp_all add: shown_stylize_before)

lemma paint_restyled:
  "paint sty c i st = Inr st' \<Longrightarrow> c \<in> A \<Longrightarrow> restyled A (statuses st) (statuses st')"
  by (auto simp: paint_def restyled_before split: option.splits)

lemma green_step_restyled:
  assumes "green_step g s i st = Inr st'"
  shows "restyled (set g) (statuses st) (statuses st')"
proof (cases "i < length g \<and> i < length s \<and> g ! i = s ! i")
  case True
  then have "g ! i \<in> set g" using nth_mem[of i g] by blast
  with assms True show ?thesis
    by (auto simp: green_step_def Let_def restyled_refl restyled_green
        split: if_splits option.splits)
next
  case False
  with assms show ?thesis
    by (auto simp: green_step_def Let_def restyled_refl split: if_splits)
qed

lemma other_step_restyled:
  assumes "other_step g s i st = Inr st'"
  shows "restyled (set g) (statuses st) (statuses st')"
proof (cases "Span i (i + 1) green_style \<in> set (spans (pretty_guess st))")
  case True
  with assms show ?thesis by (simp add: other_step_def restyled_refl)
next
  case False
  with assms have "i < length g"
    by (auto simp: other_step_def split: if_splits)
  then have "g ! i \<in> set g" by simp
  with assms False show ?thesis
    by (auto simp: other_step_def Let_def dest!: paint_restyled[where A="set g"]
        split: if_splits option.splits sum.splits)
qed

lemma run_pass_restyled:
  assumes "\<And>i st st'. body i st = Inr st' \<Longrightarrow> restyled A (statuses st) (statuses st')"
  shows "run_pass body is st = Inr st' \<Longrightarrow> restyled A (statuses st) (statuses st')"
proof (induction "is" arbitrary: st)
  case Nil
  then show ?case by (simp add: restyled_refl)
next
  case (Cons i "is")
  then obtain st1 where 1: "body i st = Inr st1" and 2: "run_pass body is st1 = Inr st'"
    by (auto split: sum.splits)
  show ?case
    by (rule restyled_trans[OF assms[OF 1] Cons.IH[OF 2]])
qed

lemma run_pass_raise_restyled:
  assumes "\<And>i st st'. body i st = Inr st' \<Longrightarrow> restyled A (statuses st) (statuses st')"
  shows "run_pass body is st = Inl (e, ls') \<Longrightarrow> restyled A (statuses st) ls'"
proof (induction "is" arbitrary: st)
  case Nil
  then show ?case by simp
next
  case (Cons i "is")
  show ?case
  proof (cases "body i st")
    case (Inl e')
    with Cons.prems show ?thesis by (simp add: restyled_refl)
  next
    case (Inr st1)
    with Cons.prems have 2: "run_pass body is st1 = Inl (e, ls')" by simp
    show ?thesis
      by (rule restyled_trans[OF assms[OF Inr] Cons.IH[OF 2]])
  qed
qed

lemma color_guess_restyled: "restyled (set g) ls (snd (color_guess ls g s))"
proof -
  let ?st0 = "\<lparr>pretty_guess = Text g, wordle_freq = letter_freq s, statuses = ls\<rparr>"
  show ?thesis
  proof (cases "run_pass (green_step g s) [0..<WORD_LENGTH] ?st0")
    case (Inl a)
    obtain e ls' where a: "a = (e, ls')" by (cases a)
    from run_pass_raise_restyled[OF green_step_restyled Inl[unfolded a]]
    show ?thesis using Inl a by (simp add: color_guess_def)
  next
    case (Inr st1)
    from run_pass_restyled[OF green_step_restyled Inr]
    have st1: "restyled (set g) ls (statuses st1)" by simp
    show ?thesis
    proof (cases "run_pass (other_step g s) [0..<WORD_LENGTH] st1")
      case (Inl a)
      obtain e ls' where a: "a = (e, ls')" by (cases a)
      from restyled_trans[OF st1 run_pass_raise_restyled[OF other_step_restyled Inl[unfolded a]]]
      show ?thesis using Inl Inr a by (simp add: color_guess_def)
    next
      case Inr2: (Inr st2)
      from restyled_trans[OF st1 run_pass_restyled[OF other_step_restyled Inr2]]
      show ?thesis using Inr Inr2 by (simp add: color_guess_def)
    qed
  qed
qed

lemma restyled_dom: "restyled A ls ls' \<Longrightarrow> dom ls' = dom ls"
proof -
  assume r: "restyled A ls ls'"
  have "ls' c = None \<longleftrightarrow> ls c = None" for c
    using r by (cases "ls c"; cases "ls' c") (auto simp: restyled_def dest!: spec[of _ c])
  then show ?thesis by (auto simp: dom_def)
qed

lemma restyled_frame: "restyled A ls ls' \<Longrightarrow> c \<notin> A \<Longrightarrow> ls' c = ls c"
  by (simp add: restyled_def)

lemma restyled_plain: "restyled A ls ls' \<Longrightarrow> map_option plain (ls' c) = map_option plain (ls c)"
  by (cases "ls c"; cases "ls' c") (auto simp: restyled_def dest!: spec[of _ c])

lemma restyled_rank:
  "restyled A ls ls' \<Longrightarrow> rank (letter_state ls c) \<le> rank (letter_state ls' c)"
  by (cases "ls c"; cases "ls' c") (auto simp: restyled_def letter_state_def shown_def dest!: spec[of _ c])

lemma color_guess_dom: "dom (snd (color_guess ls g s)) = dom ls"
  by (rule restyled_dom[OF color_guess_restyled])

lemma after_calls_dom: "dom (after_calls ls calls) = dom ls"
  by (induction calls arbitrary: ls) (simp_all add: after_calls_def color_guess_dom split: prod.splits)

subsection \<open>The result does not depend on the styles in the dictionary\<close>

lemma dom_eq_cases:
  assumes "dom m1 = dom m2"
  obtains "m1 k = None" "m2 k = None" | v1 v2 where "m1 k = Some v1" "m2 k = Some v2"
proof -
  have "k \<in> dom m1 \<longleftrightarrow> k \<in> dom m2" using assms by simp
  then show ?thesis using that by (cases "m1 k"; cases "m2 k") (auto simp: domIff)
qed

lemma paint_sim:
  assumes "same_locals st1 st2"
  shows "rel_sum (=) same_locals (paint sty c i st1) (paint sty c i st2)"
proof -
  from assms have d: "dom (statuses st1) = dom (statuses st2)" by (simp add: same_locals_def)
  show ?thesis
    by (rule dom_eq_cases[OF d, of c]) (use assms in \<open>auto simp: paint_def same_locals_def\<close>)
qed

lemma green_step_sim:
  assumes "same_locals st1 st2"
  shows "rel_sum (=) same_locals (green_step g s i st1) (green_step g s i st2)"
proof -
  from assms have d: "dom (statuses st1) = dom (statuses st2)" by (simp add: same_locals_def)
  show ?thesis
    by (rule dom_eq_cases[OF d, of "g ! i"])
      (use assms in \<open>auto simp: green_step_def same_locals_def Let_def split: option.splits\<close>)
qed

lemma other_step_sim:
  assumes "same_locals st1 st2"
  shows "rel_sum (=) same_locals (other_step g s i st1) (other_step g s i st2)"
proof -
  have p: "rel_sum (=) same_locals (paint sty (g ! i) i st1) (paint sty (g ! i) i st2)" for sty
    by (rule paint_sim[OF assms])
  have y: "rel_sum (=) same_locals
     (case paint yellow_style (g ! i) i st1 of Inl e \<Rightarrow> Inl e
        | Inr st' \<Rightarrow> Inr (st'\<lparr>wordle_freq := (wordle_freq st')(g ! i \<mapsto> n - 1)\<rparr>))
     (case paint yellow_style (g ! i) i st2 of Inl e \<Rightarrow> Inl e
        | Inr st' \<Rightarrow> Inr (st'\<lparr>wordle_freq := (wordle_freq st')(g ! i \<mapsto> n - 1)\<rparr>))" for n
    using p[of yellow_style]
    by (cases "paint yellow_style (g ! i) i st1"; cases "paint yellow_style (g ! i) i st2")
      (auto simp: same_locals_def)
  from assms have l: "pretty_guess st1 = pretty_guess st2" "wordle_freq st1 = wordle_freq st2"
    by (simp_all add: same_locals_def)
  show ?thesis
    using assms p[of no_style] y
    by (simp add: other_step_def Let_def l split: option.splits)
qed

lemma run_pass_sim:
  assumes body: "\<And>i st1 st2. same_locals st1 st2 \<Longrightarrow> rel_sum (=) same_locals (body i st1) (body i st2)"
  shows "same_locals st1 st2 \<Longrightarrow>
     rel_sum (\<lambda>a b. fst a = fst b) same_locals (run_pass body is st1) (run_pass body is st2)"
proof (induction "is" arbitrary: st1 st2)
  case Nil
  then show ?case by simp
next
  case (Cons i "is")
  from body[OF Cons.prems, of i] show ?case
    by (cases "body i st1"; cases "body i st2") (auto intro: Cons.IH)
qed

lemma color_guess_result_dom:
  assumes "dom ls1 = dom ls2"
  shows "fst (color_guess ls1 g s) = fst (color_guess ls2 g s)"
proof -
  let ?st = "\<lambda>ls. \<lparr>pretty_guess = Text g, wordle_freq = letter_freq s, statuses = ls\<rparr>"
  let ?n = "[0..<WORD_LENGTH]"
  have 0: "same_locals (?st ls1) (?st ls2)" using assms by (simp add: same_locals_def)
  have 1: "rel_sum (\<lambda>a b. fst a = fst b) same_locals
     (run_pass (green_step g s) ?n (?st ls1)) (run_pass (green_step g s) ?n (?st ls2))"
    by (rule run_pass_sim[OF green_step_sim 0])
  show ?thesis
  proof (cases "run_pass (green_step g s) ?n (?st ls1)")
    case (Inl a)
    with 1 obtain b where "run_pass (green_step g s) ?n (?st ls2) = Inl b" "fst a = fst b"
      by (cases "run_pass (green_step g s) ?n (?st ls2)") auto
    with Inl show ?thesis by (cases a; cases b) (simp add: color_guess_def)
  next
    case (Inr st1)
    with 1 obtain st2 where st2: "run_pass (green_step g s) ?n (?st ls2) = Inr st2" "same_locals st1 st2"
      by (cases "run_pass (green_step g s) ?n (?st ls2)") auto
    have 2: "rel_sum (\<lambda>a b. fst a = fst b) same_locals
       (run_pass (other_step g s) ?n st1) (run_pass (other_step g s) ?n st2)"
      by (rule run_pass_sim[OF other_step_sim st2(2)])
    then show ?thesis using Inr st2(1)
      by (cases "run_pass (other_step g s) ?n st1"; cases "run_pass (other_step g s) ?n st2")
        (auto simp: color_guess_def same_locals_def split: prod.splits)
  qed
qed

text \<open>
  Claim C9. The value \<^verbatim>\<open>color_guess(g, s)\<close> returns (the styled guess, or the exception it
  raises) is the same on a second call with the same arguments, whatever calls of
  \<^verbatim>\<open>color_guess\<close> were made in between and whatever the dictionary held at the first
  call: the result reads \<^verbatim>\<open>LETTER_STATUS\<close> only through its keys, which no call changes.
\<close>

theorem color_guess_deterministic:
  "fst (color_guess (after_calls (snd (color_guess ls guess wordle)) between) guess wordle)
     = fst (color_guess ls guess wordle)"
  by (rule color_guess_result_dom) (simp add: after_calls_dom color_guess_dom)

lemma round_statuses_append:
  "round_statuses wordle ls (gs @ hs) = round_statuses wordle (round_statuses wordle ls gs) hs"
  by (simp add: round_statuses_def)

lemma color_guess_rank:
  "rank (letter_state ls X) \<le> rank (letter_state (snd (color_guess ls g s)) X)"
  by (rule restyled_rank[OF color_guess_restyled])

lemma round_statuses_rank:
  "rank (letter_state ls X) \<le> rank (letter_state (round_statuses wordle ls hs) X)"
proof (induction hs arbitrary: ls)
  case Nil
  then show ?case by (simp add: round_statuses_def)
next
  case (Cons h hs)
  have "rank (letter_state ls X) \<le> rank (letter_state (snd (color_guess ls h wordle)) X)"
    by (rule color_guess_rank)
  also have "\<dots> \<le> rank (letter_state (round_statuses wordle (snd (color_guess ls h wordle)) hs) X)"
    by (rule Cons.IH)
  finally show ?case by (simp add: round_statuses_def)
qed

lemma rank_Correct_iff: "3 \<le> rank x \<longleftrightarrow> x = Correct"
  by (cases x) simp_all

text \<open>
  Claim C7. Over the guesses evaluated in a round (one secret word), the status a letter is
  shown with never moves down the order Unseen, Absent, Present, Correct: the status after
  the guesses \<open>gs\<close> is at most the status after \<open>gs\<close> followed by any further guesses
  \<open>hs\<close>, and a letter that is Correct after \<open>gs\<close> is Correct after \<open>gs @ hs\<close>.
\<close>

theorem letter_status_never_decreases:
  "rank (letter_state (round_statuses wordle ls gs) X)
     \<le> rank (letter_state (round_statuses wordle ls (gs @ hs)) X)
   \<and> (letter_state (round_statuses wordle ls gs) X = Correct
        \<longrightarrow> letter_state (round_statuses wordle ls (gs @ hs)) X = Correct)"
proof -
  have le: "rank (letter_state (round_statuses wordle ls gs) X)
     \<le> rank (letter_state (round_statuses wordle ls (gs @ hs)) X)"
    unfolding round_statuses_append by (rule round_statuses_rank)
  then show ?thesis
    using rank_Correct_iff[of "letter_state (round_statuses wordle ls (gs @ hs)) X"] by auto
qed

text \<open>
  The letter E is Correct after HEELS against STEPS; the next guess EERIE classifies its
  second E Absent, and E stays Correct.
\<close>

theorem letter_status_never_decreases_witness:
  "letter_state (round_statuses ''STEPS'' LETTER_STATUS [''HEELS'']) CHR ''E'' = Correct
   \<and> classify (projr (fst (color_guess (round_statuses ''STEPS'' LETTER_STATUS [''HEELS''])
         ''EERIE'' ''STEPS''))) 1 = Absent
   \<and> letter_state (round_statuses ''STEPS'' LETTER_STATUS ([''HEELS''] @ [''EERIE''])) CHR ''E'' = Correct"
proof -
  have h: "letter_state (round_statuses ''STEPS'' LETTER_STATUS [''HEELS'']) CHR ''E'' = Correct"
    by code_simp
  have a: "classify (projr (fst (color_guess (round_statuses ''STEPS'' LETTER_STATUS [''HEELS''])
         ''EERIE'' ''STEPS''))) 1 = Absent"
    by code_simp
  from letter_status_never_decreases[of "''STEPS''" LETTER_STATUS "[''HEELS'']" "CHR ''E''" "[''EERIE'']"] h
  have "letter_state (round_statuses ''STEPS'' LETTER_STATUS ([''HEELS''] @ [''EERIE''])) CHR ''E'' = Correct"
    by blast
  with h a show ?thesis by blast
qed

text \<open>
  Claim C6 says that \<^verbatim>\<open>color_guess\<close> leaves the process-wide letter statuses unchanged.
  It does not: evaluating HEELS against STEPS from the initial dictionary changes it.
\<close>

theorem color_guess_pure_counterexample:
  "snd (color_guess LETTER_STATUS ''HEELS'' ''STEPS'') \<noteq> LETTER_STATUS"
proof
  assume "snd (color_guess LETTER_STATUS ''HEELS'' ''STEPS'') = LETTER_STATUS"
  then have "snd (color_guess LETTER_STATUS ''HEELS'' ''STEPS'') CHR ''E'' = LETTER_STATUS CHR ''E''"
    by simp
  moreover have "snd (color_guess LETTER_STATUS ''HEELS'' ''STEPS'') CHR ''E'' \<noteq> LETTER_STATUS CHR ''E''"
    by code_simp
  ultimately show False by simp
qed

text \<open>
  Claim C6, amended. \<^verbatim>\<open>color_guess\<close> writes to \<^verbatim>\<open>LETTER_STATUS\<close>, and to nothing else
  outside its result; the write is confined to the styles of the letters of the guess. The
  keys of the dictionary and the text of every entry stay the same, and the entry of a
  letter that does not occur in the guess is unchanged.
\<close>

theorem color_guess_frame:
  "dom (snd (color_guess ls guess wordle)) = dom ls
   \<and> (\<forall>c. map_option plain (snd (color_guess ls guess wordle) c) = map_option plain (ls c))
   \<and> (\<forall>c. c \<notin> set guess \<longrightarrow> snd (color_guess ls guess wordle) c = ls c)"
  using color_guess_restyled[of guess ls wordle]
  by (simp add: restyled_dom restyled_plain restyled_frame)

text \<open>The letter A does not occur in HEELS, and its entry is untouched.\<close>

theorem color_guess_frame_witness:
  "CHR ''A'' \<notin> set ''HEELS''
   \<and> snd (color_guess LETTER_STATUS ''HEELS'' ''STEPS'') CHR ''A'' = LETTER_STATUS CHR ''A''"
  using color_guess_frame[of LETTER_STATUS "''HEELS''" "''STEPS''"] by simp

subsection \<open>The first loop\<close>

lemma letter_freq_loop_eq:
  "letter_freq_loop s f =
     (\<lambda>c. case f c of
             None \<Rightarrow> if c \<in> set s then Some (int (count_list s c)) else None
           | Some n \<Rightarrow> Some (n + int (count_list s c)))"
proof (induction s arbitrary: f)
  case Nil
  show ?case by (auto simp: fun_eq_iff split: option.splits)
next
  case (Cons a s)
  show ?case
  proof
    fix c
    show "letter_freq_loop (a # s) f c =
      (case f c of
         None \<Rightarrow> if c \<in> set (a # s) then Some (int (count_list (a # s) c)) else None
       | Some n \<Rightarrow> Some (n + int (count_list (a # s) c)))"
    proof (cases "f a")
      case None
      then show ?thesis
        by (cases "c = a"; cases "f c") (simp_all add: Cons.IH)
    next
      case (Some m)
      then show ?thesis
        by (cases "c = a"; cases "f c") (simp_all add: Cons.IH)
    qed
  qed
qed

lemma letter_freq_eq:
  "letter_freq s = (\<lambda>c. if c \<in> set s then Some (int (count_list s c)) else None)"
  by (simp add: letter_freq_def letter_freq_loop_eq)

lemma run_pass_snoc:
  "run_pass body (is @ [i]) st =
     (case run_pass body is st of
        Inl a \<Rightarrow> Inl a
      | Inr st' \<Rightarrow> (case body i st' of Inl e \<Rightarrow> Inl (e, statuses st') | Inr st'' \<Rightarrow> Inr st''))"
  by (induction "is" arbitrary: st) (auto split: sum.splits)

lemma count_list_nth: "count_list xs c = length (filter (\<lambda>i. xs ! i = c) [0..<length xs])"
proof -
  have "count_list xs c = length (filter ((=) c) (map ((!) xs) [0..<length xs]))"
    by (simp add: map_nth count_list_eq_length_filter)
  also have "\<dots> = length (filter (\<lambda>i. c = xs ! i) [0..<length xs])"
    by (simp add: filter_map comp_def)
  also have "(\<lambda>i. c = xs ! i) = (\<lambda>i. xs ! i = c)"
    by auto
  finally show ?thesis .
qed

lemma filter_upt_mono:
  "n \<le> m \<Longrightarrow> length (filter P [0..<n]) \<le> length (filter P [0..<m])"
  by (induction m) (auto simp: le_Suc_eq)

lemma length_filter_conj_le:
  "length (filter (\<lambda>i. P i \<and> Q i) xs) \<le> length (filter Q xs)"
  by (induction xs) auto

lemma exact_lt_count:
  assumes "n < length s" "s ! n = c"
  shows "length (exact g s c n) < count_list s c"
proof -
  have "length (exact g s c n) \<le> length (filter (\<lambda>i. s ! i = c) [0..<n])"
    unfolding exact_def by (rule length_filter_conj_le)
  also have "\<dots> < length (filter (\<lambda>i. s ! i = c) [0..<Suc n])"
    using assms by simp
  also have "\<dots> \<le> length (filter (\<lambda>i. s ! i = c) [0..<length s])"
    using assms by (intro filter_upt_mono) simp
  finally show ?thesis by (simp add: count_list_nth)
qed

lemma exact_le_count:
  assumes "n \<le> length s"
  shows "length (exact g s c n) \<le> count_list s c"
proof -
  have "length (exact g s c n) \<le> length (filter (\<lambda>i. s ! i = c) [0..<n])"
    unfolding exact_def by (rule length_filter_conj_le)
  also have "\<dots> \<le> length (filter (\<lambda>i. s ! i = c) [0..<length s])"
    using assms by (intro filter_upt_mono) simp
  finally show ?thesis by (simp add: count_list_nth)
qed

lemma exact_Suc:
  "exact g s c (Suc n) = (if g ! n = c \<and> s ! n = c then exact g s c n @ [n] else exact g s c n)"
  by (simp add: exact_def)

lemma green_spans_Suc:
  "green_spans g s (Suc n) =
     (if g ! n = s ! n then green_spans g s n @ [Span n (Suc n) green_style] else green_spans g s n)"
  by (simp add: green_spans_def)

lemma green_step_green_state:
  assumes "n < length g" "n < length s" "g ! n \<in> dom ls"
  shows "green_step g s n (green_state g s ls n) = Inr (green_state g s ls (Suc n))"
proof (cases "g ! n = s ! n")
  case False
  then have "green_state g s ls (Suc n) = green_state g s ls n"
    by (auto simp: green_state_def green_spans_Suc exact_Suc fun_eq_iff)
  with False assms show ?thesis by (simp add: green_step_def)
next
  case True
  let ?c = "g ! n"
  from assms obtain t where t: "ls ?c = Some t" by auto
  have in_s: "?c \<in> set s" using True assms by simp
  have lt: "length (exact g s ?c n) < count_list s ?c"
    using exact_lt_count[OF assms(2)] True by simp
  have "green_state g s ls (Suc n) =
     \<lparr>pretty_guess = stylize green_style n (Some (n + 1)) (pretty_guess (green_state g s ls n)),
      wordle_freq = (wordle_freq (green_state g s ls n))(?c \<mapsto> int (count_list s ?c) - int (length (exact g s ?c n)) - 1),
      statuses = (statuses (green_state g s ls n))(?c \<mapsto>
         stylize green_style 0 None (fold (\<lambda>i. stylize green_style 0 None) (exact g s ?c n) t))\<rparr>"
    using True assms(1) in_s t
    by (auto simp: green_state_def green_spans_Suc exact_Suc fun_eq_iff stylize_def)
  moreover have "wordle_freq (green_state g s ls n) ?c = Some (int (count_list s ?c) - int (length (exact g s ?c n)))"
    using in_s by (simp add: green_state_def)
  moreover have "statuses (green_state g s ls n) ?c = Some (fold (\<lambda>i. stylize green_style 0 None) (exact g s ?c n) t)"
    using t by (simp add: green_state_def)
  ultimately show ?thesis
    using True assms(1,2) lt by (simp add: green_step_def Let_def)
qed

lemma green_state_0:
  "green_state g s ls 0 = \<lparr>pretty_guess = Text g, wordle_freq = letter_freq s, statuses = ls\<rparr>"
  by (auto simp: green_state_def green_spans_def exact_def Text_def letter_freq_eq fun_eq_iff
      option.map_id0 option.map_id)

lemma green_pass:
  assumes "n \<le> length g" "n \<le> length s" "\<forall>i<n. g ! i \<in> dom ls"
  shows "run_pass (green_step g s) [0..<n] (green_state g s ls 0) = Inr (green_state g s ls n)"
  using assms
proof (induction n)
  case 0
  show ?case by simp
next
  case (Suc n)
  then have "run_pass (green_step g s) [0..<n] (green_state g s ls 0) = Inr (green_state g s ls n)"
    by simp
  moreover have "green_step g s n (green_state g s ls n) = Inr (green_state g s ls (Suc n))"
    using Suc.prems by (intro green_step_green_state) simp_all
  ultimately show ?case by (simp add: run_pass_snoc)
qed

subsection \<open>The second loop\<close>

lemma misplaced_Suc:
  "misplaced g s c (Suc n) =
     (if g ! n = c \<and> s ! n \<noteq> c then misplaced g s c n @ [n] else misplaced g s c n)"
  by (simp add: misplaced_def)

lemma other_spans_Suc:
  "other_spans g s (Suc n) =
     (if g ! n \<noteq> s ! n then other_spans g s n @ [Span n (Suc n) (second_style g s n)]
      else other_spans g s n)"
  by (simp add: other_spans_def)

lemma green_in_green_spans:
  "Span n (Suc n) green_style \<in> set (green_spans g s N) \<longleftrightarrow> n < N \<and> g ! n = s ! n"
  by (auto simp: green_spans_def)

lemma green_notin_other_spans:
  "Span n (Suc n) green_style \<notin> set (other_spans g s m)"
  by (auto simp: other_spans_def second_style_def split: if_splits)

lemma misplaced_0: "misplaced g s c 0 = []"
  by (simp add: misplaced_def)

lemma other_spans_0: "other_spans g s 0 = []"
  by (simp add: other_spans_def)

lemma budget_nonneg: "WORD_LENGTH \<le> length s \<Longrightarrow> 0 \<le> budget g s c"
  using exact_le_count[of WORD_LENGTH s g c] by (simp add: budget_def)

lemma other_state_0:
  assumes "WORD_LENGTH \<le> length s"
  shows "other_state g s ls 0 = green_state g s ls WORD_LENGTH"
proof -
  have "max 0 (budget g s c) = int (count_list s c) - int (length (exact g s c WORD_LENGTH))" for c
    using budget_nonneg[OF assms, of g c] by (simp add: budget_def)
  then have "wordle_freq (other_state g s ls 0) = wordle_freq (green_state g s ls WORD_LENGTH)"
    by (auto simp: other_state_def green_state_def misplaced_0 fun_eq_iff)
  moreover have "statuses (other_state g s ls 0) = statuses (green_state g s ls WORD_LENGTH)"
    by (simp add: other_state_def misplaced_0 option.map_id0 option.map_id)
  moreover have "pretty_guess (other_state g s ls 0) = pretty_guess (green_state g s ls WORD_LENGTH)"
    by (simp add: other_state_def green_state_def other_spans_0)
  ultimately show ?thesis by simp
qed

lemma other_step_other_state:
  assumes "n < WORD_LENGTH" "WORD_LENGTH \<le> length g" "g ! n \<in> dom ls"
  shows "other_step g s n (other_state g s ls n) = Inr (other_state g s ls (Suc n))"
proof (cases "g ! n = s ! n")
  case True
  then have "other_state g s ls (Suc n) = other_state g s ls n"
    by (auto simp: other_state_def other_spans_Suc misplaced_Suc fun_eq_iff)
  moreover have "Span n (n + 1) green_style \<in> set (spans (pretty_guess (other_state g s ls n)))"
    using True assms(1) by (simp add: other_state_def green_in_green_spans)
  ultimately show ?thesis by (simp add: other_step_def)
next
  case False
  let ?c = "g ! n"
  let ?st = "other_state g s ls n"
  let ?k = "budget g s ?c - int (length (misplaced g s ?c n))"
  have nogreen: "Span n (n + 1) green_style \<notin> set (spans (pretty_guess ?st))"
    using False by (simp add: other_state_def green_in_green_spans green_notin_other_spans)
  have len: "n < length g" using assms by simp
  from assms(3) obtain t0 where "ls ?c = Some t0" by auto
  then obtain t where t: "statuses ?st ?c = Some t"
    by (simp add: other_state_def green_state_def)
  have painted: "paint sty ?c n ?st =
      Inr (?st\<lparr>pretty_guess := stylize sty n (Some (n + 1)) (pretty_guess ?st),
               statuses := (statuses ?st)(?c \<mapsto> stylize_before sty 0 None t)\<rparr>)" for sty
    using t by (simp add: paint_def)
  have pg: "stylize (second_style g s n) n (Some (n + 1)) (pretty_guess ?st)
      = pretty_guess (other_state g s ls (Suc n))"
    using False len by (simp add: other_state_def other_spans_Suc stylize_def)
  have stat: "(statuses ?st)(?c \<mapsto> stylize_before (second_style g s n) 0 None t)
      = statuses (other_state g s ls (Suc n))"
    using False t by (auto simp: other_state_def misplaced_Suc fun_eq_iff)
  show ?thesis
  proof (cases "yellow_at g s n")
    case True
    then have in_s: "?c \<in> set s" and pos: "0 < ?k"
      by (simp_all add: yellow_at_def)
    have freq: "wordle_freq ?st ?c = Some ?k"
      using in_s pos by (simp add: other_state_def)
    have sty: "second_style g s n = yellow_style" using True by (simp add: second_style_def)
    have fr: "(wordle_freq ?st)(?c \<mapsto> ?k - 1) = wordle_freq (other_state g s ls (Suc n))"
      using False in_s pos by (auto simp: other_state_def misplaced_Suc fun_eq_iff)
    have "other_state g s ls (Suc n) =
        \<lparr>pretty_guess = stylize yellow_style n (Some (n + 1)) (pretty_guess ?st),
         wordle_freq = (wordle_freq ?st)(?c \<mapsto> ?k - 1),
         statuses = (statuses ?st)(?c \<mapsto> stylize_before yellow_style 0 None t)\<rparr>"
      using pg stat fr by (simp add: sty)
    then show ?thesis
      using nogreen len in_s freq pos painted[of yellow_style]
      by (simp add: other_step_def Let_def)
  next
    case no: False
    have sty: "second_style g s n = no_style" using no by (simp add: second_style_def)
    have fr: "wordle_freq ?st = wordle_freq (other_state g s ls (Suc n))"
      using False no by (auto simp: other_state_def misplaced_Suc fun_eq_iff yellow_at_def)
    have eq: "other_state g s ls (Suc n) =
        ?st\<lparr>pretty_guess := stylize no_style n (Some (n + 1)) (pretty_guess ?st),
            statuses := (statuses ?st)(?c \<mapsto> stylize_before no_style 0 None t)\<rparr>"
      using pg stat fr by (simp add: sty)
    show ?thesis
    proof (cases "?c \<in> set s")
      case True
      then have freq: "wordle_freq ?st ?c = Some (max 0 ?k)"
        by (simp add: other_state_def)
      have "\<not> 0 < max 0 ?k" using no True by (simp add: yellow_at_def)
      then show ?thesis
        using nogreen len True freq painted[of no_style] eq
        by (simp add: other_step_def Let_def)
    next
      case False
      then show ?thesis
        using nogreen len painted[of no_style] eq
        by (simp add: other_step_def Let_def)
    qed
  qed
qed

lemma other_pass:
  assumes "n \<le> WORD_LENGTH" "WORD_LENGTH \<le> length g" "\<forall>i<WORD_LENGTH. g ! i \<in> dom ls"
  shows "run_pass (other_step g s) [0..<n] (other_state g s ls 0) = Inr (other_state g s ls n)"
  using assms(1)
proof (induction n)
  case 0
  show ?case by simp
next
  case (Suc n)
  then have "run_pass (other_step g s) [0..<n] (other_state g s ls 0) = Inr (other_state g s ls n)"
    by simp
  moreover have "other_step g s n (other_state g s ls n) = Inr (other_state g s ls (Suc n))"
    using Suc.prems assms(2,3) by (intro other_step_other_state) simp_all
  ultimately show ?case by (simp add: run_pass_snoc)
qed

lemma color_guess_eq:
  assumes "WORD_LENGTH \<le> length g" "WORD_LENGTH \<le> length s" "\<forall>i<WORD_LENGTH. g ! i \<in> dom ls"
  shows "color_guess ls g s =
     (Inr (pretty_guess (other_state g s ls WORD_LENGTH)), statuses (other_state g s ls WORD_LENGTH))"
proof -
  have 1: "run_pass (green_step g s) [0..<WORD_LENGTH]
        \<lparr>pretty_guess = Text g, wordle_freq = letter_freq s, statuses = ls\<rparr>
      = Inr (other_state g s ls 0)"
    using green_pass[of WORD_LENGTH g s ls] assms
    by (simp add: green_state_0 other_state_0)
  have 2: "run_pass (other_step g s) [0..<WORD_LENGTH] (other_state g s ls 0)
      = Inr (other_state g s ls WORD_LENGTH)"
    using other_pass[of WORD_LENGTH g ls s] assms by simp
  show ?thesis by (simp add: color_guess_def 1 2)
qed

subsection \<open>The classification returned\<close>

lemma filter_eq_upt:
  "filter (\<lambda>j. P j \<and> j = i) [0..<n] = (if i < n \<and> P i then [i] else [])"
  by (induction n) (auto simp: less_Suc_eq)

lemma covering_unit_spans:
  "filter (\<lambda>sp. span_start sp \<le> i \<and> i < span_end sp) (map (\<lambda>j. Span j (Suc j) (f j)) js)
     = map (\<lambda>j. Span j (Suc j) (f j)) (filter (\<lambda>j. j = i) js)"
  by (induction js) auto

lemma style_at_result:
  assumes "i < N"
  shows "style_at \<lparr>plain = g, spans = green_spans g s N @ other_spans g s N\<rparr> i
     = Some (if g ! i = s ! i then green_style else second_style g s i)"
  using assms
  by (simp add: style_at_def green_spans_def other_spans_def covering_unit_spans filter_eq_upt)

lemma classify_result:
  assumes "i < N"
  shows "classify \<lparr>plain = g, spans = green_spans g s N @ other_spans g s N\<rparr> i = expected g s i"
  by (simp add: classify_def style_at_result[OF assms] expected_def second_style_def)

lemma dom_LETTER_STATUS: "dom LETTER_STATUS = set alphabet"
  by (simp add: LETTER_STATUS_def dom_map_of_conv_image_fst image_image)

lemma letters_kept_dom: "letters_kept ls \<Longrightarrow> dom ls = set alphabet"
proof -
  assume k: "letters_kept ls"
  have "ls c = None \<longleftrightarrow> LETTER_STATUS c = None" for c
    using k[unfolded letters_kept_def, rule_format, of c]
    by (cases "ls c"; cases "LETTER_STATUS c") simp_all
  then have "dom ls = dom LETTER_STATUS" by (auto simp: dom_def)
  then show ?thesis by (simp add: dom_LETTER_STATUS)
qed

lemma letters_kept_plain:
  assumes "letters_kept ls" "ls c = Some t"
  shows "plain t = [CHR '' '', c, CHR '' '']"
proof -
  from assms(1)[unfolded letters_kept_def, rule_format, of c] assms(2)
  have "map_option plain (LETTER_STATUS c) = Some (plain t)"
    by simp
  then obtain t0 where t0: "LETTER_STATUS c = Some t0" "plain t0 = plain t"
    by (cases "LETTER_STATUS c") auto
  from t0(1) have "t0 = Text [CHR '' '', c, CHR '' '']"
    unfolding LETTER_STATUS_def by (auto dest!: map_of_SomeD)
  with t0(2) show ?thesis by (simp add: Text_def)
qed

lemma letters_kept_initial: "letters_kept LETTER_STATUS"
  by (simp add: letters_kept_def)

lemma letters_kept_color_guess:
  "letters_kept ls \<Longrightarrow> letters_kept (snd (color_guess ls g s))"
  using restyled_plain[OF color_guess_restyled[of g ls s]] by (simp add: letters_kept_def)

lemma playable_color_guess:
  assumes "playable ls g s"
  shows "color_guess ls g s =
     (Inr \<lparr>plain = g, spans = green_spans g s WORD_LENGTH @ other_spans g s WORD_LENGTH\<rparr>,
      statuses (other_state g s ls WORD_LENGTH))"
proof -
  have "g ! i \<in> dom ls" if "i < WORD_LENGTH" for i
  proof -
    from that assms have "g ! i \<in> set g" by (simp add: playable_def)
    with assms have "g ! i \<in> set alphabet" unfolding playable_def by blast
    with assms show ?thesis by (simp add: playable_def letters_kept_dom)
  qed
  then have "\<forall>i<WORD_LENGTH. g ! i \<in> dom ls" by blast
  with assms show ?thesis
    by (simp add: color_guess_eq playable_def other_state_def)
qed

lemma playable_returns:
  assumes "playable ls g s"
  shows "\<exists>t. fst (color_guess ls g s) = Inr t"
  by (simp add: playable_color_guess[OF assms])

lemma playable_classify:
  assumes "playable ls g s" "fst (color_guess ls g s) = Inr t" "i < WORD_LENGTH"
  shows "classify t i = expected g s i"
  using assms(2) classify_result[OF assms(3), of g s]
  by (auto simp: playable_color_guess[OF assms(1)])

lemma expected_Correct: "expected g s i = Correct \<longleftrightarrow> g ! i = s ! i"
  by (simp add: expected_def)

lemma expected_Present: "expected g s i = Present \<longleftrightarrow> g ! i \<noteq> s ! i \<and> yellow_at g s i"
  by (simp add: expected_def)

lemma expected_Absent: "expected g s i = Absent \<longleftrightarrow> g ! i \<noteq> s ! i \<and> \<not> yellow_at g s i"
  by (simp add: expected_def)

lemma length_filter_disj:
  "(\<And>x. x \<in> set xs \<Longrightarrow> \<not> (P x \<and> Q x)) \<Longrightarrow>
     length (filter (\<lambda>x. P x \<or> Q x) xs) = length (filter P xs) + length (filter Q xs)"
  by (induction xs) auto

lemma length_filter_imp_le:
  "(\<And>x. P x \<Longrightarrow> Q x) \<Longrightarrow> length (filter P xs) \<le> length (filter Q xs)"
  by (induction xs) auto

lemma yellow_count_le:
  "int (length (filter (\<lambda>i. g ! i = X \<and> s ! i \<noteq> X \<and> int (length (misplaced g s X i)) < b) [0..<n]))
     \<le> min (int (length (misplaced g s X n))) (max 0 b)"
proof (induction n)
  case 0
  show ?case by (simp add: misplaced_0)
next
  case (Suc n)
  then show ?case by (auto simp: misplaced_Suc)
qed

lemma colored_le_count:
  assumes "playable ls g s" "fst (color_guess ls g s) = Inr t"
  shows "length (colored t g X) \<le> count_list s X"
proof -
  let ?N = "WORD_LENGTH"
  let ?b = "budget g s X"
  have len: "?N \<le> length s" using assms(1) by (simp add: playable_def)
  have "colored t g X =
      filter (\<lambda>i. (g ! i = X \<and> s ! i = X)
                 \<or> (g ! i = X \<and> s ! i \<noteq> X \<and> int (length (misplaced g s X i)) < ?b \<and> X \<in> set s)) [0..<?N]"
    unfolding colored_def
    by (rule filter_cong)
      (auto simp: playable_classify[OF assms] expected_Correct expected_Present yellow_at_def)
  also have "length \<dots> = length (exact g s X ?N)
      + length (filter (\<lambda>i. g ! i = X \<and> s ! i \<noteq> X \<and> int (length (misplaced g s X i)) < ?b \<and> X \<in> set s) [0..<?N])"
    unfolding exact_def by (rule length_filter_disj) auto
  also have "length (filter (\<lambda>i. g ! i = X \<and> s ! i \<noteq> X \<and> int (length (misplaced g s X i)) < ?b \<and> X \<in> set s) [0..<?N])
      \<le> length (filter (\<lambda>i. g ! i = X \<and> s ! i \<noteq> X \<and> int (length (misplaced g s X i)) < ?b) [0..<?N])"
    by (rule length_filter_imp_le) simp
  finally have "int (length (colored t g X)) \<le> int (length (exact g s X ?N)) + max 0 ?b"
    using yellow_count_le[of g X s ?b ?N] by simp
  moreover have "max 0 ?b = ?b" using budget_nonneg[OF len, of g X] by simp
  ultimately show ?thesis by (simp add: budget_def)
qed

lemma playableI:
  "length guess = WORD_LENGTH \<Longrightarrow> length wordle = WORD_LENGTH \<Longrightarrow> set guess \<subseteq> set alphabet
     \<Longrightarrow> letters_kept ls \<Longrightarrow> playable ls guess wordle"
  by (simp add: playable_def)

text \<open>
  Claim C1. For a guess and a secret word of \<^verbatim>\<open>WORD_LENGTH\<close> uppercase letters each,
  \<^verbatim>\<open>color_guess\<close> returns a styled guess in which, for every letter \<open>X\<close>, the positions
  holding \<open>X\<close> that are classified Correct or Present are at most as many as the
  occurrences of \<open>X\<close> in the secret word.
\<close>

theorem colored_at_most_occurrences:
  assumes "length guess = WORD_LENGTH" and "length wordle = WORD_LENGTH"
    and "set guess \<subseteq> set alphabet" and "set wordle \<subseteq> set alphabet"
    and "letters_kept ls"
  shows "\<exists>t. fst (color_guess ls guess wordle) = Inr t
           \<and> length (colored t guess X) \<le> count_list wordle X"
proof -
  have p: "playable ls guess wordle" using assms by (simp add: playableI)
  from playable_returns[OF p] obtain t where t: "fst (color_guess ls guess wordle) = Inr t" ..
  from colored_le_count[OF p t] t show ?thesis by blast
qed

text \<open>SLEEP against ELBOW: one of the two E is coloured, and ELBOW has one E.\<close>

theorem colored_at_most_occurrences_witness:
  "length ''SLEEP'' = WORD_LENGTH \<and> length ''ELBOW'' = WORD_LENGTH
   \<and> set ''SLEEP'' \<subseteq> set alphabet \<and> set ''ELBOW'' \<subseteq> set alphabet
   \<and> letters_kept LETTER_STATUS
   \<and> (\<exists>t. fst (color_guess LETTER_STATUS ''SLEEP'' ''ELBOW'') = Inr t
          \<and> length (colored t ''SLEEP'' CHR ''E'') \<le> count_list ''ELBOW'' CHR ''E'')"
proof -
  have h: "length ''SLEEP'' = WORD_LENGTH" "length ''ELBOW'' = WORD_LENGTH"
    "set ''SLEEP'' \<subseteq> set alphabet" "set ''ELBOW'' \<subseteq> set alphabet"
    "letters_kept LETTER_STATUS"
    by (simp_all add: WORD_LENGTH_def alphabet_def letters_kept_def)
  from colored_at_most_occurrences[OF h, of "CHR ''E''"] h show ?thesis by blast
qed

text \<open>
  Claim C10. For a guess and a secret word of \<^verbatim>\<open>WORD_LENGTH\<close> letters each over the 26
  uppercase letters, \<^verbatim>\<open>color_guess\<close> (with \<^verbatim>\<open>letter_freq\<close>) returns a styled guess: none
  of the index and dictionary lookups of the model raises.
\<close>

theorem color_guess_returns:
  assumes "length guess = WORD_LENGTH" and "length wordle = WORD_LENGTH"
    and "set guess \<subseteq> set alphabet" and "set wordle \<subseteq> set alphabet"
    and "letters_kept ls"
  shows "\<exists>t. fst (color_guess ls guess wordle) = Inr t"
proof -
  have p: "playable ls guess wordle" using assms by (simp add: playableI)
  show ?thesis by (rule playable_returns[OF p])
qed

text \<open>HEELS against STEPS, from the initial dictionary.\<close>

theorem color_guess_returns_witness:
  "length ''HEELS'' = WORD_LENGTH \<and> length ''STEPS'' = WORD_LENGTH
   \<and> set ''HEELS'' \<subseteq> set alphabet \<and> set ''STEPS'' \<subseteq> set alphabet
   \<and> letters_kept LETTER_STATUS
   \<and> (\<exists>t. fst (color_guess LETTER_STATUS ''HEELS'' ''STEPS'') = Inr t)"
proof -
  have h: "length ''HEELS'' = WORD_LENGTH" "length ''STEPS'' = WORD_LENGTH"
    "set ''HEELS'' \<subseteq> set alphabet" "set ''STEPS'' \<subseteq> set alphabet"
    "letters_kept LETTER_STATUS"
    by (simp_all add: WORD_LENGTH_def alphabet_def letters_kept_def)
  from color_guess_returns[OF h] h show ?thesis by blast
qed

text \<open>
  Claim C8. For a guess and a secret word of length \<^verbatim>\<open>WORD_LENGTH\<close>, position \<open>i\<close> of the
  returned guess is classified Correct exactly when the guess and the secret word hold the
  same letter at \<open>i\<close>; and when they do, the first loop reaches iteration \<open>i\<close> with a
  remaining count of that letter above zero, so that the count test of line 194 holds.
\<close>

theorem correct_iff_exact_match:
  assumes "length guess = WORD_LENGTH" and "length wordle = WORD_LENGTH"
    and "set guess \<subseteq> set alphabet" and "letters_kept ls" and "i < WORD_LENGTH"
  shows "\<exists>t. fst (color_guess ls guess wordle) = Inr t
           \<and> (classify t i = Correct \<longleftrightarrow> guess ! i = wordle ! i)
           \<and> (guess ! i = wordle ! i \<longrightarrow>
                (\<exists>st n. run_pass (green_step guess wordle) [0..<i]
                            \<lparr>pretty_guess = Text guess, wordle_freq = letter_freq wordle,
                             statuses = ls\<rparr> = Inr st
                        \<and> wordle_freq st (guess ! i) = Some n \<and> 0 < n))"
proof -
  have p: "playable ls guess wordle" using assms by (simp add: playableI)
  from playable_returns[OF p] obtain t where t: "fst (color_guess ls guess wordle) = Inr t" ..
  have c: "classify t i = Correct \<longleftrightarrow> guess ! i = wordle ! i"
    by (simp add: playable_classify[OF p t assms(5)] expected_Correct)
  have b: "\<exists>st n. run_pass (green_step guess wordle) [0..<i]
                            \<lparr>pretty_guess = Text guess, wordle_freq = letter_freq wordle,
                             statuses = ls\<rparr> = Inr st
                        \<and> wordle_freq st (guess ! i) = Some n \<and> 0 < n"
    if m: "guess ! i = wordle ! i"
  proof -
    have d: "\<forall>j<i. guess ! j \<in> dom ls"
    proof (intro allI impI)
      fix j assume "j < i"
      with assms have "guess ! j \<in> set guess" by simp
      with assms show "guess ! j \<in> dom ls" by (auto simp: letters_kept_dom)
    qed
    have "run_pass (green_step guess wordle) [0..<i] (green_state guess wordle ls 0)
        = Inr (green_state guess wordle ls i)"
      using assms d by (intro green_pass) simp_all
    moreover have "wordle ! i \<in> set wordle" using assms by simp
    then have "wordle_freq (green_state guess wordle ls i) (guess ! i)
        = Some (int (count_list wordle (guess ! i)) - int (length (exact guess wordle (guess ! i) i)))"
      using m by (simp add: green_state_def)
    moreover have "length (exact guess wordle (guess ! i) i) < count_list wordle (guess ! i)"
      using assms m by (intro exact_lt_count) simp_all
    ultimately show ?thesis by (simp add: green_state_0)
  qed
  from t c b show ?thesis by blast
qed

text \<open>Position 2 of HEELS against STEPS: the E is an exact match, with one E left to spend.\<close>

theorem correct_iff_exact_match_witness:
  "length ''HEELS'' = WORD_LENGTH \<and> length ''STEPS'' = WORD_LENGTH
   \<and> set ''HEELS'' \<subseteq> set alphabet \<and> letters_kept LETTER_STATUS \<and> 2 < WORD_LENGTH
   \<and> ''HEELS'' ! 2 = ''STEPS'' ! 2
   \<and> (\<exists>t. fst (color_guess LETTER_STATUS ''HEELS'' ''STEPS'') = Inr t \<and> classify t 2 = Correct
        \<and> (\<exists>st n. run_pass (green_step ''HEELS'' ''STEPS'') [0..<2]
                            \<lparr>pretty_guess = Text ''HEELS'', wordle_freq = letter_freq ''STEPS'',
                             statuses = LETTER_STATUS\<rparr> = Inr st
                        \<and> wordle_freq st (''HEELS'' ! 2) = Some n \<and> 0 < n))"
proof -
  have h: "length ''HEELS'' = WORD_LENGTH" "length ''STEPS'' = WORD_LENGTH"
    "set ''HEELS'' \<subseteq> set alphabet" "letters_kept LETTER_STATUS" "2 < WORD_LENGTH"
    by (simp_all add: WORD_LENGTH_def alphabet_def letters_kept_def)
  have m: "''HEELS'' ! 2 = ''STEPS'' ! 2" by simp
  from correct_iff_exact_match[OF h] m h show ?thesis by blast
qed

lemma two_positions_count:
  assumes "i < length s" "j < length s" "i \<noteq> j" "s ! i = X" "s ! j = X"
  shows "2 \<le> count_list s X"
proof -
  let ?xs = "filter (\<lambda>k. s ! k = X) [0..<length s]"
  have "{i, j} \<subseteq> set ?xs" using assms by simp
  then have "card {i, j} \<le> card (set ?xs)" by (intro card_mono) simp_all
  also have "card (set ?xs) = length ?xs" by (intro distinct_card) simp
  finally show ?thesis using assms(3) by (simp add: count_list_nth)
qed

lemma single_exact_leaves_nothing:
  assumes "playable ls g s" "fst (color_guess ls g s) = Inr t"
    and "length s = WORD_LENGTH" "count_list s X = 1"
    and "i < WORD_LENGTH" "j < WORD_LENGTH" "i \<noteq> j" "g ! i = X" "g ! j = X" "s ! i = X"
  shows "classify t i = Correct \<and> classify t j = Absent"
proof -
  have ci: "classify t i = Correct"
    using assms by (simp add: playable_classify[OF assms(1,2)] expected_Correct)
  have sj: "s ! j \<noteq> X"
    using two_positions_count[of i s j X] assms by auto
  have "i \<in> set (exact g s X WORD_LENGTH)" using assms by (simp add: exact_def)
  then have "0 < length (exact g s X WORD_LENGTH)" by (rule length_pos_if_in_set)
  then have "1 \<le> int (length (exact g s X WORD_LENGTH))" by linarith
  then have "budget g s X \<le> 0" unfolding budget_def assms(4) by linarith
  then have "\<not> yellow_at g s j" using assms(9) by (simp add: yellow_at_def)
  then have "classify t j = Absent"
    using sj assms by (simp add: playable_classify[OF assms(1,2)] expected_Absent)
  with ci show ?thesis ..
qed

text \<open>
  Claim C2. When a letter \<open>X\<close> occurs once in the secret word and twice in the guess, at
  positions \<open>i\<close> and \<open>j\<close> of the guess, and the secret word holds \<open>X\<close> at \<open>i\<close>, then
  position \<open>i\<close> is classified Correct and position \<open>j\<close> Absent, whichever of \<open>i\<close> and
  \<open>j\<close> comes first. For the secret word STEPS and the guess HEELS the classification is
  Absent, Absent, Correct, Absent, Correct.
\<close>

theorem exact_occurrence_takes_the_budget:
  "(length guess = WORD_LENGTH \<and> length wordle = WORD_LENGTH \<and> set guess \<subseteq> set alphabet
      \<and> letters_kept ls \<and> count_list wordle X = 1 \<and> count_list guess X = 2
      \<and> i < WORD_LENGTH \<and> j < WORD_LENGTH \<and> i \<noteq> j
      \<and> guess ! i = X \<and> guess ! j = X \<and> wordle ! i = X
    \<longrightarrow> (\<exists>t. fst (color_guess ls guess wordle) = Inr t
            \<and> classify t i = Correct \<and> classify t j = Absent))
   \<and> (\<exists>t. fst (color_guess LETTER_STATUS ''HEELS'' ''STEPS'') = Inr t
         \<and> classification t = [Absent, Absent, Correct, Absent, Correct])"
proof (intro conjI impI)
  assume a: "length guess = WORD_LENGTH \<and> length wordle = WORD_LENGTH \<and> set guess \<subseteq> set alphabet
      \<and> letters_kept ls \<and> count_list wordle X = 1 \<and> count_list guess X = 2
      \<and> i < WORD_LENGTH \<and> j < WORD_LENGTH \<and> i \<noteq> j
      \<and> guess ! i = X \<and> guess ! j = X \<and> wordle ! i = X"
  then have p: "playable ls guess wordle" by (simp add: playableI)
  from playable_returns[OF p] obtain t where t: "fst (color_guess ls guess wordle) = Inr t" ..
  from single_exact_leaves_nothing[OF p t, of X i j] a
  have "classify t i = Correct \<and> classify t j = Absent" by simp
  with t show "\<exists>t. fst (color_guess ls guess wordle) = Inr t
            \<and> classify t i = Correct \<and> classify t j = Absent" by blast
next
  have "fst (color_guess LETTER_STATUS ''HEELS'' ''STEPS'')
      = Inr (projr (fst (color_guess LETTER_STATUS ''HEELS'' ''STEPS'')))"
    by code_simp
  moreover have "classification (projr (fst (color_guess LETTER_STATUS ''HEELS'' ''STEPS'')))
      = [Absent, Absent, Correct, Absent, Correct]"
    by code_simp
  ultimately show "\<exists>t. fst (color_guess LETTER_STATUS ''HEELS'' ''STEPS'') = Inr t
         \<and> classification t = [Absent, Absent, Correct, Absent, Correct]" by blast
qed

text \<open>
  HEELS against STEPS, where the exact E comes second, and SHEEP against STEPS, where it
  comes first.
\<close>

theorem exact_occurrence_takes_the_budget_witness:
  "(length ''HEELS'' = WORD_LENGTH \<and> length ''STEPS'' = WORD_LENGTH \<and> set ''HEELS'' \<subseteq> set alphabet
      \<and> letters_kept LETTER_STATUS \<and> count_list ''STEPS'' CHR ''E'' = 1
      \<and> count_list ''HEELS'' CHR ''E'' = 2
      \<and> 2 < WORD_LENGTH \<and> 1 < WORD_LENGTH \<and> (2::nat) \<noteq> 1
      \<and> ''HEELS'' ! 2 = CHR ''E'' \<and> ''HEELS'' ! 1 = CHR ''E'' \<and> ''STEPS'' ! 2 = CHR ''E'')
   \<and> (\<exists>t. fst (color_guess LETTER_STATUS ''HEELS'' ''STEPS'') = Inr t
         \<and> classify t 2 = Correct \<and> classify t 1 = Absent)
   \<and> (length ''SHEEP'' = WORD_LENGTH \<and> length ''STEPS'' = WORD_LENGTH \<and> set ''SHEEP'' \<subseteq> set alphabet
      \<and> letters_kept LETTER_STATUS \<and> count_list ''STEPS'' CHR ''E'' = 1
      \<and> count_list ''SHEEP'' CHR ''E'' = 2
      \<and> 2 < WORD_LENGTH \<and> 3 < WORD_LENGTH \<and> (2::nat) \<noteq> 3
      \<and> ''SHEEP'' ! 2 = CHR ''E'' \<and> ''SHEEP'' ! 3 = CHR ''E'' \<and> ''STEPS'' ! 2 = CHR ''E'')
   \<and> (\<exists>t. fst (color_guess LETTER_STATUS ''SHEEP'' ''STEPS'') = Inr t
         \<and> classify t 2 = Correct \<and> classify t 3 = Absent)"
proof -
  have h1: "length ''HEELS'' = WORD_LENGTH \<and> length ''STEPS'' = WORD_LENGTH \<and> set ''HEELS'' \<subseteq> set alphabet
      \<and> letters_kept LETTER_STATUS \<and> count_list ''STEPS'' CHR ''E'' = 1
      \<and> count_list ''HEELS'' CHR ''E'' = 2
      \<and> 2 < WORD_LENGTH \<and> 1 < WORD_LENGTH \<and> (2::nat) \<noteq> 1
      \<and> ''HEELS'' ! 2 = CHR ''E'' \<and> ''HEELS'' ! 1 = CHR ''E'' \<and> ''STEPS'' ! 2 = CHR ''E''"
    by (simp add: WORD_LENGTH_def alphabet_def letters_kept_def)
  have h2: "length ''SHEEP'' = WORD_LENGTH \<and> length ''STEPS'' = WORD_LENGTH \<and> set ''SHEEP'' \<subseteq> set alphabet
      \<and> letters_kept LETTER_STATUS \<and> count_list ''STEPS'' CHR ''E'' = 1
      \<and> count_list ''SHEEP'' CHR ''E'' = 2
      \<and> 2 < WORD_LENGTH \<and> 3 < WORD_LENGTH \<and> (2::nat) \<noteq> 3
      \<and> ''SHEEP'' ! 2 = CHR ''E'' \<and> ''SHEEP'' ! 3 = CHR ''E'' \<and> ''STEPS'' ! 2 = CHR ''E''"
    by (simp add: WORD_LENGTH_def alphabet_def letters_kept_def)
  from exact_occurrence_takes_the_budget[of "''HEELS''" "''STEPS''" LETTER_STATUS "CHR ''E''" 2 1] h1
  have r1: "\<exists>t. fst (color_guess LETTER_STATUS ''HEELS'' ''STEPS'') = Inr t
         \<and> classify t 2 = Correct \<and> classify t 1 = Absent" by blast
  from exact_occurrence_takes_the_budget[of "''SHEEP''" "''STEPS''" LETTER_STATUS "CHR ''E''" 2 3] h2
  have r2: "\<exists>t. fst (color_guess LETTER_STATUS ''SHEEP'' ''STEPS'') = Inr t
         \<and> classify t 2 = Correct \<and> classify t 3 = Absent" by blast
  from h1 h2 r1 r2 show ?thesis by blast
qed

subsection \<open>The letter statuses after a call\<close>

lemma plain_fold_stylize:
  "plain (fold (\<lambda>i. stylize sty 0 None) js t) = plain t"
  by (induction js arbitrary: t) simp_all

lemma style_at_fold_green:
  assumes "plain t \<noteq> []"
  shows "style_at (fold (\<lambda>i. stylize green_style 0 None) js t) 0
     = (if js = [] then style_at t 0 else Some green_style)"
proof (induction js rule: rev_induct)
  case Nil
  show ?case by simp
next
  case (snoc j js)
  show ?case using assms by (simp add: style_at_stylize plain_fold_stylize)
qed

lemma style_at_fold_before:
  assumes "plain t \<noteq> []"
  shows "style_at (fold (\<lambda>i. stylize_before (f i) 0 None) js t) 0
     = (case style_at t 0 of
          Some x \<Rightarrow> Some x
        | None \<Rightarrow> (case js of [] \<Rightarrow> None | j # _ \<Rightarrow> Some (f j)))"
  using assms
proof (induction js arbitrary: t)
  case Nil
  show ?case by (simp split: option.splits)
next
  case (Cons j js)
  have "plain (stylize_before (f j) 0 None t) \<noteq> []" using Cons.prems by simp
  from Cons.IH[OF this] Cons.prems show ?case
    by (simp add: style_at_stylize_before split: option.splits list.splits)
qed

lemma final_statuses:
  "statuses (other_state g s ls WORD_LENGTH) X =
     map_option (\<lambda>t. fold (\<lambda>i. stylize_before (second_style g s i) 0 None) (misplaced g s X WORD_LENGTH)
                        (fold (\<lambda>i. stylize green_style 0 None) (exact g s X WORD_LENGTH) t))
       (ls X)"
  by (simp add: other_state_def green_state_def option.map_comp comp_def)

lemma status_of_Unseen: "status_of x = Unseen \<longleftrightarrow> x = None"
  by (cases x rule: status_of.cases) simp_all

lemma final_letter_state:
  assumes "letters_kept ls"
  shows "letter_state (statuses (other_state g s ls WORD_LENGTH)) X =
     (case ls X of
        None \<Rightarrow> Unseen
      | Some t \<Rightarrow>
          if exact g s X WORD_LENGTH \<noteq> [] then Correct
          else if letter_state ls X \<noteq> Unseen then letter_state ls X
          else (case misplaced g s X WORD_LENGTH of
                  [] \<Rightarrow> Unseen
                | j # _ \<Rightarrow> status_of (Some (second_style g s j))))"
proof (cases "ls X")
  case None
  then show ?thesis by (simp add: letter_state_def final_statuses)
next
  case (Some t)
  then have ne: "plain t \<noteq> []" using letters_kept_plain[OF assms Some] by simp
  let ?t1 = "fold (\<lambda>i. stylize green_style 0 None) (exact g s X WORD_LENGTH) t"
  let ?t2 = "fold (\<lambda>i. stylize_before (second_style g s i) 0 None) (misplaced g s X WORD_LENGTH) ?t1"
  have ne1: "plain ?t1 \<noteq> []" using ne by (simp add: plain_fold_stylize)
  have l: "letter_state (statuses (other_state g s ls WORD_LENGTH)) X = status_of (style_at ?t2 0)"
    using Some by (simp add: letter_state_def final_statuses)
  have l0: "letter_state ls X = status_of (style_at t 0)"
    using Some by (simp add: letter_state_def)
  show ?thesis
  proof (cases "exact g s X WORD_LENGTH = []")
    case False
    then have "style_at ?t1 0 = Some green_style" by (simp add: style_at_fold_green[OF ne])
    then have "style_at ?t2 0 = Some green_style" by (simp add: style_at_fold_before[OF ne1])
    with False Some show ?thesis by (simp add: l)
  next
    case True
    then have t1: "style_at ?t1 0 = style_at t 0" by simp
    show ?thesis
    proof (cases "style_at t 0")
      case None
      then have "style_at ?t2 0 =
          (case misplaced g s X WORD_LENGTH of [] \<Rightarrow> None | j # _ \<Rightarrow> Some (second_style g s j))"
        using t1 by (simp add: style_at_fold_before[OF ne1])
      then have "letter_state (statuses (other_state g s ls WORD_LENGTH)) X =
          (case misplaced g s X WORD_LENGTH of
             [] \<Rightarrow> Unseen | j # _ \<Rightarrow> status_of (Some (second_style g s j)))"
        unfolding l by (simp split: list.splits)
      with True None \<open>ls X = Some t\<close> show ?thesis
        by (simp add: l0)
    next
      case (Some x)
      then have "style_at ?t2 0 = Some x" using t1 by (simp add: style_at_fold_before[OF ne1])
      with True Some \<open>ls X = Some t\<close> show ?thesis
        by (simp add: l l0 status_of_Unseen)
    qed
  qed
qed

lemma filter_upt_Cons:
  "filter P [0..<n] = j # js \<Longrightarrow> j < n \<and> P j \<and> filter P [0..<j] = []"
proof (induction n arbitrary: js)
  case 0
  then show ?case by simp
next
  case (Suc n)
  show ?case
  proof (cases "filter P [0..<n]")
    case Nil
    with Suc.prems have "P n" "j = n" by (auto split: if_splits)
    with Nil show ?thesis by simp
  next
    case (Cons j' js')
    with Suc.prems have "j' = j" by (auto split: if_splits)
    with Cons Suc.IH[of js'] show ?thesis by auto
  qed
qed

lemma exact_nonempty: "exact g s X n \<noteq> [] \<longleftrightarrow> (\<exists>i<n. g ! i = X \<and> s ! i = X)"
  by (auto simp: exact_def filter_empty_conv)

lemma misplaced_nonempty: "misplaced g s X n \<noteq> [] \<longleftrightarrow> (\<exists>i<n. g ! i = X \<and> s ! i \<noteq> X)"
  by (auto simp: misplaced_def filter_empty_conv)

lemma occurs_as_Correct:
  assumes "playable ls g s" "fst (color_guess ls g s) = Inr t"
  shows "occurs_as t g X Correct \<longleftrightarrow> exact g s X WORD_LENGTH \<noteq> []"
  by (auto simp: occurs_as_def exact_nonempty playable_classify[OF assms] expected_Correct)

lemma occurs_iff: "occurs g X \<longleftrightarrow> exact g s X WORD_LENGTH \<noteq> [] \<or> misplaced g s X WORD_LENGTH \<noteq> []"
  by (auto simp: occurs_def exact_nonempty misplaced_nonempty)

lemma first_misplaced_style:
  assumes "exact g s X WORD_LENGTH = []" "misplaced g s X WORD_LENGTH = j # js"
  shows "second_style g s j = (if X \<in> set s then yellow_style else no_style)"
proof -
  from filter_upt_Cons[OF assms(2)[unfolded misplaced_def]]
  have j: "j < WORD_LENGTH" "g ! j = X" "s ! j \<noteq> X" "misplaced g s X j = []"
    by (simp_all add: misplaced_def)
  have "budget g s X = int (count_list s X)" using assms(1) by (simp add: budget_def)
  then have "yellow_at g s j \<longleftrightarrow> X \<in> set s"
    using j count_list_0_iff[of s X] by (auto simp: yellow_at_def)
  then show ?thesis by (simp add: second_style_def)
qed

lemma occurs_as_Present:
  assumes "playable ls g s" "fst (color_guess ls g s) = Inr t"
    and "exact g s X WORD_LENGTH = []"
  shows "occurs_as t g X Present \<longleftrightarrow> misplaced g s X WORD_LENGTH \<noteq> [] \<and> X \<in> set s"
proof
  assume "occurs_as t g X Present"
  then obtain i where i: "i < WORD_LENGTH" "g ! i = X" "classify t i = Present"
    by (auto simp: occurs_as_def)
  then have "g ! i \<noteq> s ! i" "yellow_at g s i"
    by (simp_all add: playable_classify[OF assms(1,2)] expected_Present)
  with i show "misplaced g s X WORD_LENGTH \<noteq> [] \<and> X \<in> set s"
    by (auto simp: misplaced_nonempty yellow_at_def)
next
  assume a: "misplaced g s X WORD_LENGTH \<noteq> [] \<and> X \<in> set s"
  then obtain j js where m: "misplaced g s X WORD_LENGTH = j # js"
    by (cases "misplaced g s X WORD_LENGTH") auto
  from filter_upt_Cons[OF m[unfolded misplaced_def]]
  have j: "j < WORD_LENGTH" "g ! j = X" "s ! j \<noteq> X" by simp_all
  from first_misplaced_style[OF assms(3) m] a have "yellow_at g s j"
    by (simp add: second_style_def split: if_splits)
  with j have "classify t j = Present"
    by (simp add: playable_classify[OF assms(1,2)] expected_Present)
  with j show "occurs_as t g X Present" by (auto simp: occurs_as_def)
qed

lemma letter_state_after:
  assumes "playable ls g s" "fst (color_guess ls g s) = Inr t"
  shows "letter_state (snd (color_guess ls g s)) X =
     (if occurs_as t g X Correct then Correct
      else if letter_state ls X \<noteq> Unseen then letter_state ls X
      else if occurs_as t g X Present then Present
      else if occurs g X then Absent
      else Unseen)"
proof -
  have k: "letters_kept ls" using assms(1) by (simp add: playable_def)
  have snd_eq: "snd (color_guess ls g s) = statuses (other_state g s ls WORD_LENGTH)"
    by (simp add: playable_color_guess[OF assms(1)])
  note C = occurs_as_Correct[OF assms, of X]
  show ?thesis
  proof (cases "ls X")
    case None
    then have "X \<notin> set alphabet" using letters_kept_dom[OF k] by auto
    then have "X \<notin> set g" using assms(1) by (auto simp: playable_def)
    then have no: "\<not> occurs g X" using assms(1)
      by (auto simp: occurs_def playable_def)
    then have "\<not> occurs_as t g X Correct" "\<not> occurs_as t g X Present"
      by (auto simp: occurs_def occurs_as_def)
    moreover have "letter_state ls X = Unseen" using None by (simp add: letter_state_def)
    ultimately show ?thesis using no None
      by (simp add: snd_eq final_letter_state[OF k])
  next
    case (Some t0)
    show ?thesis
    proof (cases "exact g s X WORD_LENGTH = []")
      case False
      with Some C show ?thesis by (simp add: snd_eq final_letter_state[OF k])
    next
      case True
      note P = occurs_as_Present[OF assms True]
      show ?thesis
      proof (cases "misplaced g s X WORD_LENGTH")
        case Nil
        with True Some C P occurs_iff[of g X s] show ?thesis
          by (simp add: snd_eq final_letter_state[OF k])
      next
        case (Cons j js)
        with True Some C P occurs_iff[of g X s] first_misplaced_style[OF True Cons] show ?thesis
          by (simp add: snd_eq final_letter_state[OF k])
      qed
    qed
  qed
qed

lemma occurs_as_Present_in_secret:
  assumes "playable ls g s" "fst (color_guess ls g s) = Inr t" "occurs_as t g X Present"
  shows "X \<in> set s"
proof -
  from assms(3) obtain i where i: "i < WORD_LENGTH" "g ! i = X" "classify t i = Present"
    by (auto simp: occurs_as_def)
  then have "yellow_at g s i"
    by (simp add: playable_classify[OF assms(1,2)] expected_Present)
  with i show ?thesis by (simp add: yellow_at_def)
qed

lemma letter_state_initial: "letter_state LETTER_STATUS X = Unseen"
proof (cases "LETTER_STATUS X")
  case None
  then show ?thesis by (simp add: letter_state_def)
next
  case (Some t)
  then have "t = Text [CHR '' '', X, CHR '' '']"
    unfolding LETTER_STATUS_def by (auto dest!: map_of_SomeD)
  with Some show ?thesis by (simp add: letter_state_def style_at_def Text_def)
qed

lemma round_consistent_initial: "round_consistent wordle LETTER_STATUS"
  by (simp add: round_consistent_def letters_kept_initial letter_state_initial)

lemma round_consistent_color_guess:
  assumes "playable ls g s" "round_consistent s ls"
  shows "round_consistent s (snd (color_guess ls g s))"
proof -
  from playable_returns[OF assms(1)] obtain t where t: "fst (color_guess ls g s) = Inr t" ..
  have k: "letters_kept ls" using assms(1) by (simp add: playable_def)
  have "X \<notin> set s" if a: "letter_state (snd (color_guess ls g s)) X = Absent" for X
  proof (cases "letter_state ls X = Unseen")
    case False
    with a have "letter_state ls X = Absent"
      by (simp add: letter_state_after[OF assms(1) t] split: if_splits)
    with assms(2) show ?thesis by (simp add: round_consistent_def)
  next
    case True
    with a have n: "\<not> occurs_as t g X Correct" "\<not> occurs_as t g X Present" "occurs g X"
      by (simp_all add: letter_state_after[OF assms(1) t] split: if_splits)
    from n(1) have e: "exact g s X WORD_LENGTH = []"
      by (simp add: occurs_as_Correct[OF assms(1) t])
    with n(3) have "misplaced g s X WORD_LENGTH \<noteq> []" by (simp add: occurs_iff[of g X s])
    with n(2) show ?thesis by (simp add: occurs_as_Present[OF assms(1) t e])
  qed
  with letters_kept_color_guess[OF k, of g s] show ?thesis
    by (simp add: round_consistent_def)
qed

lemma letter_state_after_in_round:
  assumes "playable ls g s" "round_consistent s ls" "fst (color_guess ls g s) = Inr t"
  shows "letter_state (snd (color_guess ls g s)) X =
     (if occurs_as t g X Correct \<or> letter_state ls X = Correct then Correct
      else if occurs_as t g X Present \<or> letter_state ls X = Present then Present
      else if occurs g X \<or> letter_state ls X = Absent then Absent
      else Unseen)"
proof -
  have "\<not> (letter_state ls X = Absent \<and> occurs_as t g X Present)"
    using occurs_as_Present_in_secret[OF assms(1,3), of X] assms(2)
    by (auto simp: round_consistent_def)
  then show ?thesis
    by (cases "letter_state ls X") (auto simp: letter_state_after[OF assms(1,3)])
qed

text \<open>Every dictionary reached from the initial one by calls is well formed.\<close>

lemma letters_kept_after_calls: "letters_kept ls \<Longrightarrow> letters_kept (after_calls ls calls)"
proof (induction calls arbitrary: ls)
  case Nil
  then show ?case by (simp add: after_calls_def)
next
  case (Cons c calls)
  obtain g s where c: "c = (g, s)" by (cases c)
  have "letters_kept (snd (color_guess ls g s))"
    by (rule letters_kept_color_guess[OF Cons.prems])
  from Cons.IH[OF this] show ?case by (simp add: after_calls_def c)
qed

lemma letters_kept_round_statuses:
  "letters_kept ls \<Longrightarrow> letters_kept (round_statuses wordle ls guesses)"
proof (induction guesses arbitrary: ls)
  case Nil
  then show ?case by (simp add: round_statuses_def)
next
  case (Cons g guesses)
  have "letters_kept (snd (color_guess ls g wordle))"
    by (rule letters_kept_color_guess[OF Cons.prems])
  from Cons.IH[OF this] show ?case by (simp add: round_statuses_def)
qed

lemma round_consistent_round_statuses:
  assumes "\<forall>g\<in>set guesses. valid_guess g" "WORD_LENGTH \<le> length wordle" "round_consistent wordle ls"
  shows "round_consistent wordle (round_statuses wordle ls guesses)"
  using assms
proof (induction guesses arbitrary: ls)
  case Nil
  then show ?case by (simp add: round_statuses_def)
next
  case (Cons g guesses)
  have p: "playable ls g wordle"
    using Cons.prems by (simp add: playable_def valid_guess_def round_consistent_def)
  have "round_consistent wordle (snd (color_guess ls g wordle))"
    by (rule round_consistent_color_guess[OF p Cons.prems(3)])
  with Cons.IH[of "snd (color_guess ls g wordle)"] Cons.prems(1,2) show ?case
    by (simp add: round_statuses_def)
qed

subsection \<open>The round\<close>

declare game_loop.simps [simp del]

lemma game_loop_done:
  "\<not> tries < TRIES_LIMIT \<Longrightarrow> game_loop wordle tries st = (Inr False, st)"
  by (subst game_loop.simps) simp

lemma game_loop_eof:
  "tries < TRIES_LIMIT \<Longrightarrow> pending st = [] \<Longrightarrow> game_loop wordle tries st = (Inl EOFError, st)"
  by (subst game_loop.simps) (simp add: read_input_def)

lemma add_to_board_playable:
  assumes "playable (letters st) g wordle" "tries < length (board st)"
  shows "add_to_board g wordle tries st =
     (Inr (), st\<lparr>board := (board st)[tries := projr (fst (color_guess (letters st) g wordle))],
                letters := snd (color_guess (letters st) g wordle)\<rparr>)"
  using assms(2) by (simp add: add_to_board_def playable_color_guess[OF assms(1)])

lemma game_loop_step:
  assumes "tries < TRIES_LIMIT" "pending st = g # rest" "playable (letters st) g wordle"
    "length (board st) = TRIES_LIMIT"
  shows "game_loop wordle tries st =
     (if g = wordle
      then (Inr True, st\<lparr>pending := rest,
                board := (board st)[tries := projr (fst (color_guess (letters st) g wordle))],
                letters := snd (color_guess (letters st) g wordle)\<rparr>)
      else game_loop wordle (tries + 1)
             (st\<lparr>pending := rest,
                board := (board st)[tries := projr (fst (color_guess (letters st) g wordle))],
                letters := snd (color_guess (letters st) g wordle)\<rparr>))"
proof -
  have "add_to_board g wordle tries (st\<lparr>pending := rest\<rparr>) =
     (Inr (), st\<lparr>pending := rest,
                board := (board st)[tries := projr (fst (color_guess (letters st) g wordle))],
                letters := snd (color_guess (letters st) g wordle)\<rparr>)"
    using add_to_board_playable[of "st\<lparr>pending := rest\<rparr>" g wordle tries] assms by simp
  then show ?thesis
    using assms(1,2) by (subst game_loop.simps) (simp add: read_input_def)
qed

lemma game_loop_run:
  assumes "\<forall>g\<in>set (pending st). valid_guess g" "WORD_LENGTH \<le> length wordle"
    "letters_kept (letters st)" "length (board st) = TRIES_LIMIT"
  shows "fst (game_loop wordle tries st) =
       (if length (takeWhile (\<lambda>g. g \<noteq> wordle) (pending st)) < TRIES_LIMIT - tries
           \<and> length (takeWhile (\<lambda>g. g \<noteq> wordle) (pending st)) < length (pending st)
        then Inr True
        else if TRIES_LIMIT - tries \<le> length (pending st) then Inr False else Inl EOFError)
     \<and> pending (snd (game_loop wordle tries st)) =
       (if length (takeWhile (\<lambda>g. g \<noteq> wordle) (pending st)) < TRIES_LIMIT - tries
           \<and> length (takeWhile (\<lambda>g. g \<noteq> wordle) (pending st)) < length (pending st)
        then drop (Suc (length (takeWhile (\<lambda>g. g \<noteq> wordle) (pending st)))) (pending st)
        else drop (TRIES_LIMIT - tries) (pending st))"
  using assms
proof (induction "pending st" arbitrary: st tries)
  case Nil
  then show ?case
    by (cases "tries < TRIES_LIMIT") (simp_all add: game_loop_done game_loop_eof)
next
  case (Cons g rest)
  show ?case
  proof (cases "tries < TRIES_LIMIT")
    case False
    then show ?thesis by (simp add: game_loop_done)
  next
    case True
    have ps: "pending st = g # rest" using Cons.hyps(2) by simp
    have p: "playable (letters st) g wordle"
      using Cons.prems ps by (simp add: playable_def valid_guess_def)
    let ?st2 = "st\<lparr>pending := rest,
                board := (board st)[tries := projr (fst (color_guess (letters st) g wordle))],
                letters := snd (color_guess (letters st) g wordle)\<rparr>"
    note step = game_loop_step[OF True ps p Cons.prems(4)]
    show ?thesis
    proof (cases "g = wordle")
      case True
      with step \<open>tries < TRIES_LIMIT\<close> ps show ?thesis by simp
    next
      case False
      have "rest = pending ?st2" by simp
      moreover have "\<forall>g\<in>set (pending ?st2). valid_guess g" using Cons.prems(1) ps by simp
      moreover have "letters_kept (letters ?st2)"
        using letters_kept_color_guess[OF Cons.prems(3)] by simp
      moreover have "length (board ?st2) = TRIES_LIMIT" using Cons.prems(4) by simp
      ultimately have IH: "fst (game_loop wordle (tries + 1) ?st2) =
         (if length (takeWhile (\<lambda>g. g \<noteq> wordle) rest) < TRIES_LIMIT - (tries + 1)
             \<and> length (takeWhile (\<lambda>g. g \<noteq> wordle) rest) < length rest
          then Inr True
          else if TRIES_LIMIT - (tries + 1) \<le> length rest then Inr False else Inl EOFError)
       \<and> pending (snd (game_loop wordle (tries + 1) ?st2)) =
         (if length (takeWhile (\<lambda>g. g \<noteq> wordle) rest) < TRIES_LIMIT - (tries + 1)
             \<and> length (takeWhile (\<lambda>g. g \<noteq> wordle) rest) < length rest
          then drop (Suc (length (takeWhile (\<lambda>g. g \<noteq> wordle) rest))) rest
          else drop (TRIES_LIMIT - (tries + 1)) rest)"
        using Cons.hyps(1)[of ?st2 "tries + 1"] Cons.prems(2) by simp
      have k: "TRIES_LIMIT - tries = Suc (TRIES_LIMIT - (tries + 1))" using True by simp
      show ?thesis
        unfolding step ps using False IH by (simp add: k del: One_nat_def)
    qed
  qed
qed

lemma takeWhile_holds: "j < length (takeWhile P xs) \<Longrightarrow> P (xs ! j)"
  using nth_mem[of j "takeWhile P xs"] by (auto simp: takeWhile_nth dest: set_takeWhileD)

lemma takeWhile_reaches:
  assumes "k \<le> length xs" "\<forall>j<k. P (xs ! j)"
  shows "k \<le> length (takeWhile P xs)"
proof (rule ccontr)
  assume "\<not> k \<le> length (takeWhile P xs)"
  then have m: "length (takeWhile P xs) < k" by simp
  with assms(1) have "length (takeWhile P xs) < length xs" by simp
  from nth_length_takeWhile[OF this] assms(2) m show False by blast
qed

lemma first_match_exists:
  "length (takeWhile (\<lambda>g. g \<noteq> w) gs) < n \<and> length (takeWhile (\<lambda>g. g \<noteq> w) gs) < length gs
     \<longleftrightarrow> (\<exists>k<n. k < length gs \<and> gs ! k = w)"
proof
  assume a: "length (takeWhile (\<lambda>g. g \<noteq> w) gs) < n \<and> length (takeWhile (\<lambda>g. g \<noteq> w) gs) < length gs"
  then have "gs ! length (takeWhile (\<lambda>g. g \<noteq> w) gs) = w"
    using nth_length_takeWhile[of "\<lambda>g. g \<noteq> w" gs] by simp
  with a show "\<exists>k<n. k < length gs \<and> gs ! k = w" by blast
next
  assume "\<exists>k<n. k < length gs \<and> gs ! k = w"
  then obtain k where k: "k < n" "k < length gs" "gs ! k = w" by blast
  have "\<not> k < length (takeWhile (\<lambda>g. g \<noteq> w) gs)"
    using takeWhile_holds[of k "\<lambda>g. g \<noteq> w" gs] k(3) by blast
  with k show "length (takeWhile (\<lambda>g. g \<noteq> w) gs) < n \<and> length (takeWhile (\<lambda>g. g \<noteq> w) gs) < length gs"
    by simp
qed

lemma first_match_at:
  assumes "k < length gs" "\<forall>j<k. gs ! j \<noteq> w"
  shows "length (takeWhile (\<lambda>g. g \<noteq> w) gs) = k \<longleftrightarrow> gs ! k = w"
proof
  assume "length (takeWhile (\<lambda>g. g \<noteq> w) gs) = k"
  with assms(1) show "gs ! k = w"
    using nth_length_takeWhile[of "\<lambda>g. g \<noteq> w" gs] by simp
next
  assume e: "gs ! k = w"
  have "k \<le> length (takeWhile (\<lambda>g. g \<noteq> w) gs)"
    using assms by (intro takeWhile_reaches) simp_all
  moreover have "\<not> k < length (takeWhile (\<lambda>g. g \<noteq> w) gs)"
    using takeWhile_holds[of k "\<lambda>g. g \<noteq> w" gs] e by blast
  ultimately show "length (takeWhile (\<lambda>g. g \<noteq> w) gs) = k" by simp
qed

lemma game_run:
  assumes "\<forall>g\<in>set guesses. valid_guess g" "WORD_LENGTH \<le> length wordle" "letters_kept ls"
  shows "fst (game wordle guesses ls) =
       (if \<exists>k<TRIES_LIMIT. k < length guesses \<and> guesses ! k = wordle then Inr True
        else if TRIES_LIMIT \<le> length guesses then Inr False else Inl EOFError)
     \<and> pending (snd (game wordle guesses ls)) =
       (if \<exists>k<TRIES_LIMIT. k < length guesses \<and> guesses ! k = wordle
        then drop (Suc (length (takeWhile (\<lambda>g. g \<noteq> wordle) guesses))) guesses
        else drop TRIES_LIMIT guesses)"
proof -
  define st0 where "st0 = \<lparr>board = replicate TRIES_LIMIT (Text ''_____''), pending = guesses,
      letters = ls\<rparr>"
  have p: "pending st0 = guesses" and l: "letters st0 = ls" and b: "length (board st0) = TRIES_LIMIT"
    by (simp_all add: st0_def)
  have g: "game wordle guesses ls = game_loop wordle 0 st0"
    by (simp add: game_def st0_def)
  have e: "(length (takeWhile (\<lambda>g. g \<noteq> wordle) guesses) < TRIES_LIMIT - 0
        \<and> length (takeWhile (\<lambda>g. g \<noteq> wordle) guesses) < length guesses)
      = (\<exists>k<TRIES_LIMIT. k < length guesses \<and> guesses ! k = wordle)"
    using first_match_exists[of wordle guesses TRIES_LIMIT] by simp
  from game_loop_run[of st0 wordle 0, unfolded p l e, OF assms b]
  show ?thesis unfolding g diff_zero .
qed

text \<open>
  Claim C3. With the guesses \<^verbatim>\<open>read_input\<close> returns being words of \<^verbatim>\<open>WORD_LENGTH\<close>
  uppercase letters, \<^verbatim>\<open>game\<close> returns \<^verbatim>\<open>True\<close> exactly when one of the first
  \<^verbatim>\<open>TRIES_LIMIT\<close> guesses equals the secret word; and at every attempt \<open>k\<close> that is
  reached (no earlier guess was the secret word), the last one included, the round ends won
  right after that guess exactly when that guess equals the secret word.
\<close>

theorem game_won_iff_guess_is_secret:
  assumes "\<forall>g\<in>set guesses. length g = WORD_LENGTH \<and> set g \<subseteq> set alphabet"
    and "WORD_LENGTH \<le> length wordle" and "letters_kept ls"
  shows "(fst (game wordle guesses ls) = Inr True
            \<longleftrightarrow> (\<exists>k<TRIES_LIMIT. k < length guesses \<and> guesses ! k = wordle))
     \<and> (\<forall>k<TRIES_LIMIT. k < length guesses \<and> (\<forall>j<k. guesses ! j \<noteq> wordle) \<longrightarrow>
          ((fst (game wordle guesses ls) = Inr True
              \<and> pending (snd (game wordle guesses ls)) = drop (Suc k) guesses)
           \<longleftrightarrow> guesses ! k = wordle))"
proof -
  have v: "\<forall>g\<in>set guesses. valid_guess g" using assms(1) by (simp add: valid_guess_def)
  note run = game_run[OF v assms(2,3)]
  let ?m = "length (takeWhile (\<lambda>g. g \<noteq> wordle) guesses)"
  have won: "fst (game wordle guesses ls) = Inr True
      \<longleftrightarrow> (\<exists>k<TRIES_LIMIT. k < length guesses \<and> guesses ! k = wordle)"
    using run by (simp split: if_splits)
  have at: "(fst (game wordle guesses ls) = Inr True
              \<and> pending (snd (game wordle guesses ls)) = drop (Suc k) guesses)
           \<longleftrightarrow> guesses ! k = wordle"
    if k: "k < TRIES_LIMIT" "k < length guesses" "\<forall>j<k. guesses ! j \<noteq> wordle" for k
  proof
    assume e: "guesses ! k = wordle"
    then have m: "?m = k" using first_match_at[OF k(2,3)] by simp
    from e k have "\<exists>k<TRIES_LIMIT. k < length guesses \<and> guesses ! k = wordle" by blast
    with run m show "fst (game wordle guesses ls) = Inr True
              \<and> pending (snd (game wordle guesses ls)) = drop (Suc k) guesses"
      by simp
  next
    assume a: "fst (game wordle guesses ls) = Inr True
              \<and> pending (snd (game wordle guesses ls)) = drop (Suc k) guesses"
    then have ex: "\<exists>k<TRIES_LIMIT. k < length guesses \<and> guesses ! k = wordle"
      using won by simp
    then have lt: "?m < length guesses"
      using first_match_exists[of wordle guesses TRIES_LIMIT] by simp
    from a ex run have "drop (Suc ?m) guesses = drop (Suc k) guesses" by simp
    then have "length (drop (Suc ?m) guesses) = length (drop (Suc k) guesses)" by simp
    with lt k(2) have "?m = k" by simp
    then show "guesses ! k = wordle" using first_match_at[OF k(2,3)] by simp
  qed
  from won at show ?thesis by blast
qed

text \<open>
  STEPS is guessed at the sixth and last attempt: the round is won, with all six guesses
  read.
\<close>

theorem game_won_iff_guess_is_secret_witness:
  "WORD_LENGTH \<le> length ''STEPS'' \<and> letters_kept LETTER_STATUS
   \<and> 5 < TRIES_LIMIT
   \<and> 5 < length [''CRANE'', ''SLATE'', ''HEELS'', ''STOPS'', ''SHEEP'', ''STEPS'']
   \<and> [''CRANE'', ''SLATE'', ''HEELS'', ''STOPS'', ''SHEEP'', ''STEPS''] ! 5 = ''STEPS''
   \<and> fst (game ''STEPS'' [''CRANE'', ''SLATE'', ''HEELS'', ''STOPS'', ''SHEEP'', ''STEPS'']
        LETTER_STATUS) = Inr True
   \<and> pending (snd (game ''STEPS'' [''CRANE'', ''SLATE'', ''HEELS'', ''STOPS'', ''SHEEP'', ''STEPS'']
        LETTER_STATUS)) = []"
proof -
  let ?gs = "[''CRANE'', ''SLATE'', ''HEELS'', ''STOPS'', ''SHEEP'', ''STEPS'']"
  have h: "\<forall>g\<in>set ?gs. length g = WORD_LENGTH \<and> set g \<subseteq> set alphabet"
    "WORD_LENGTH \<le> length ''STEPS''" "letters_kept LETTER_STATUS"
    by (simp_all add: WORD_LENGTH_def alphabet_def letters_kept_def)
  have k: "5 < TRIES_LIMIT" "5 < length ?gs" "?gs ! 5 = ''STEPS''"
    by (simp_all add: TRIES_LIMIT_def)
  have n: "\<forall>j<5. ?gs ! j \<noteq> ''STEPS''"
    by (auto simp: less_Suc_eq eval_nat_numeral)
  from game_won_iff_guess_is_secret[OF h] k n
  have "fst (game ''STEPS'' ?gs LETTER_STATUS) = Inr True
      \<and> pending (snd (game ''STEPS'' ?gs LETTER_STATUS)) = drop (Suc 5) ?gs"
    by blast
  with h k show ?thesis by simp
qed

text \<open>
  For a secret word of at least \<^verbatim>\<open>WORD_LENGTH\<close> characters and guesses of
  \<^verbatim>\<open>WORD_LENGTH\<close> uppercase letters, \<^verbatim>\<open>game\<close> returns \<^verbatim>\<open>False\<close> exactly when the
  player supplies \<^verbatim>\<open>TRIES_LIMIT\<close> guesses and none of the first \<^verbatim>\<open>TRIES_LIMIT\<close> equals
  the secret word; it has then read exactly \<^verbatim>\<open>TRIES_LIMIT\<close> guesses; and however the round
  ends it has read at most \<^verbatim>\<open>TRIES_LIMIT\<close> guesses.
\<close>

lemma game_lost_iff_long_secret:
  assumes "\<forall>g\<in>set guesses. length g = WORD_LENGTH \<and> set g \<subseteq> set alphabet"
    and "WORD_LENGTH \<le> length wordle" and "letters_kept ls"
  shows "(fst (game wordle guesses ls) = Inr False
            \<longleftrightarrow> TRIES_LIMIT \<le> length guesses \<and> (\<forall>k<TRIES_LIMIT. guesses ! k \<noteq> wordle))
     \<and> (fst (game wordle guesses ls) = Inr False
            \<longrightarrow> pending (snd (game wordle guesses ls)) = drop TRIES_LIMIT guesses)
     \<and> (\<exists>n\<le>TRIES_LIMIT. pending (snd (game wordle guesses ls)) = drop n guesses)"
proof -
  have v: "\<forall>g\<in>set guesses. valid_guess g" using assms(1) by (simp add: valid_guess_def)
  define hit where "hit \<longleftrightarrow> (\<exists>k<TRIES_LIMIT. k < length guesses \<and> guesses ! k = wordle)"
  define m where "m = length (takeWhile (\<lambda>g. g \<noteq> wordle) guesses)"
  note run = game_run[OF v assms(2,3), folded hit_def m_def]
  have lost: "fst (game wordle guesses ls) = Inr False \<longleftrightarrow> \<not> hit \<and> TRIES_LIMIT \<le> length guesses"
    using run by (cases hit) simp_all
  have "\<not> hit \<longleftrightarrow> (\<forall>k<TRIES_LIMIT. guesses ! k \<noteq> wordle)" if "TRIES_LIMIT \<le> length guesses"
    unfolding hit_def using less_le_trans[OF _ that] by blast
  with lost have 1: "fst (game wordle guesses ls) = Inr False
            \<longleftrightarrow> TRIES_LIMIT \<le> length guesses \<and> (\<forall>k<TRIES_LIMIT. guesses ! k \<noteq> wordle)"
    by blast
  have 2: "fst (game wordle guesses ls) = Inr False
            \<longrightarrow> pending (snd (game wordle guesses ls)) = drop TRIES_LIMIT guesses"
    using run lost by (cases hit) simp_all
  have 3: "\<exists>n\<le>TRIES_LIMIT. pending (snd (game wordle guesses ls)) = drop n guesses"
  proof (cases hit)
    case True
    then have "m < TRIES_LIMIT"
      unfolding hit_def m_def using first_match_exists[of wordle guesses TRIES_LIMIT] by simp
    then have "Suc m \<le> TRIES_LIMIT" by simp
    moreover have "pending (snd (game wordle guesses ls)) = drop (Suc m) guesses"
      using run True by simp
    ultimately show ?thesis by blast
  next
    case False
    then have "pending (snd (game wordle guesses ls)) = drop TRIES_LIMIT guesses"
      using run by simp
    then show ?thesis by blast
  qed
  from 1 2 3 show ?thesis by blast
qed

subsection \<open>A secret word shorter than \<^verbatim>\<open>WORD_LENGTH\<close>\<close>

lemma run_pass_raises:
  assumes "i \<in> set is" "\<And>st. \<exists>e. body i st = Inl e"
  shows "\<exists>a. run_pass body is st = Inl a"
  using assms(1)
proof (induction "is" arbitrary: st)
  case Nil
  then show ?case by simp
next
  case (Cons j js)
  show ?case
  proof (cases "body j st")
    case (Inl e)
    then show ?thesis by simp
  next
    case (Inr st')
    from assms(2)[of st] Inr have "j \<noteq> i" by auto
    with Cons.prems have "i \<in> set js" by simp
    from Cons.IH[OF this, of st'] Inr show ?thesis by simp
  qed
qed

lemma green_step_short: "length wordle \<le> i \<Longrightarrow> green_step guess wordle i st = Inl IndexError"
  by (simp add: green_step_def Let_def)

lemma color_guess_short_secret:
  assumes "length wordle < WORD_LENGTH"
  shows "\<exists>e. fst (color_guess ls guess wordle) = Inl e"
proof -
  have "length wordle \<in> set [0..<WORD_LENGTH]" using assms by simp
  from run_pass_raises[OF this, of "green_step guess wordle"
      "\<lparr>pretty_guess = Text guess, wordle_freq = letter_freq wordle, statuses = ls\<rparr>"]
  obtain a where "run_pass (green_step guess wordle) [0..<WORD_LENGTH]
      \<lparr>pretty_guess = Text guess, wordle_freq = letter_freq wordle, statuses = ls\<rparr> = Inl a"
    by (auto simp: green_step_short)
  then show ?thesis by (cases a) (simp add: color_guess_def)
qed

lemma color_guess_returns_long_secret:
  "fst (color_guess ls guess wordle) = Inr t \<Longrightarrow> WORD_LENGTH \<le> length wordle"
  using color_guess_short_secret[of wordle ls guess] by (cases "length wordle < WORD_LENGTH") auto

lemma game_short_secret_raises:
  assumes "length wordle < WORD_LENGTH"
  shows "\<exists>e. fst (game wordle guesses ls) = Inl e"
proof -
  let ?st = "\<lparr>board = replicate TRIES_LIMIT (Text ''_____''), pending = guesses, letters = ls\<rparr>"
  have t: "0 < TRIES_LIMIT" by (simp add: TRIES_LIMIT_def)
  show ?thesis
  proof (cases guesses)
    case Nil
    then show ?thesis using t by (simp add: game_def game_loop_eof)
  next
    case (Cons g rest)
    from color_guess_short_secret[OF assms, of ls g]
    obtain e where "fst (color_guess ls g wordle) = Inl e" ..
    then have "fst (add_to_board g wordle 0 (?st\<lparr>pending := rest\<rparr>)) = Inl e"
      by (cases "color_guess ls g wordle") (simp add: add_to_board_def)
    then show ?thesis
      using t Cons
      by (cases "add_to_board g wordle 0 (?st\<lparr>pending := rest\<rparr>)")
        (simp add: game_def game_loop.simps[of wordle 0] read_input_def)
  qed
qed


subsection \<open>The letter statuses within a round\<close>

lemma absent_never_present_in_round:
  assumes "playable ls g s" "round_consistent s ls" "fst (color_guess ls g s) = Inr t"
    "letter_state ls X = Absent"
  shows "\<not> occurs_as t g X Present"
  using occurs_as_Present_in_secret[OF assms(1,3), of X] assms(2,4)
  by (auto simp: round_consistent_def)

lemma candidate_reached:
  assumes "playable ls g s" "round_consistent s ls" "fst (color_guess ls g s) = Inr t"
    "i < WORD_LENGTH"
  shows "rank (classify t i) \<le> rank (letter_state (snd (color_guess ls g s)) (g ! i))"
proof -
  note f = letter_state_after_in_round[OF assms(1,2,3), of "g ! i"]
  have o: "occurs g (g ! i)" using assms(4) by (auto simp: occurs_def)
  have c: "occurs_as t g (g ! i) (classify t i)" using assms(4) by (auto simp: occurs_as_def)
  show ?thesis
  proof (cases "classify t i")
    case Unseen
    then show ?thesis by simp
  next
    case Absent
    with o show ?thesis unfolding f by simp
  next
    case Present
    with c show ?thesis unfolding f by simp
  next
    case Correct
    with c show ?thesis unfolding f by simp
  qed
qed

text \<open>
  Claim C5. In a round, that is from the initial dictionary and after any guesses evaluated
  against the same secret word, evaluating one more guess leaves every letter \<open>X\<close> with the
  best, in the order Correct, Present, Absent, Unseen, of its stored status and the
  classifications of the positions of the guess that hold \<open>X\<close>. So at every position whose
  classification outranks the stored status of its letter, the status of the letter
  becomes that classification, or a higher one another position of the same guess gives.
\<close>

theorem status_replaced_by_better_candidate:
  assumes "\<forall>g\<in>set earlier. length g = WORD_LENGTH \<and> set g \<subseteq> set alphabet"
    and "length guess = WORD_LENGTH" and "set guess \<subseteq> set alphabet"
    and "fst (color_guess (round_statuses wordle LETTER_STATUS earlier) guess wordle) = Inr t"
  shows "(\<forall>i<WORD_LENGTH.
            rank (letter_state (round_statuses wordle LETTER_STATUS earlier) (guess ! i))
              < rank (classify t i)
            \<longrightarrow> rank (classify t i)
              \<le> rank (letter_state
                   (snd (color_guess (round_statuses wordle LETTER_STATUS earlier) guess wordle))
                   (guess ! i)))
     \<and> letter_state (snd (color_guess (round_statuses wordle LETTER_STATUS earlier) guess wordle)) X =
         (if occurs_as t guess X Correct
             \<or> letter_state (round_statuses wordle LETTER_STATUS earlier) X = Correct then Correct
          else if occurs_as t guess X Present
             \<or> letter_state (round_statuses wordle LETTER_STATUS earlier) X = Present then Present
          else if occurs guess X
             \<or> letter_state (round_statuses wordle LETTER_STATUS earlier) X = Absent then Absent
          else Unseen)"
proof -
  let ?ls = "round_statuses wordle LETTER_STATUS earlier"
  have len: "WORD_LENGTH \<le> length wordle"
    by (rule color_guess_returns_long_secret[OF assms(4)])
  have v: "\<forall>g\<in>set earlier. valid_guess g" using assms(1) by (simp add: valid_guess_def)
  have rc: "round_consistent wordle ?ls"
    by (rule round_consistent_round_statuses[OF v len round_consistent_initial])
  then have p: "playable ?ls guess wordle"
    using assms(2,3) len by (simp add: playable_def round_consistent_def)
  from candidate_reached[OF p rc assms(4)] letter_state_after_in_round[OF p rc assms(4), of X]
  show ?thesis by simp
qed

text \<open>
  After SLEEP against STEPS the letter P is Present; the guess STEPS classifies position 3,
  a P, Correct, and P becomes Correct.
\<close>

theorem status_replaced_by_better_candidate_witness:
  "length ''STEPS'' = WORD_LENGTH \<and> set ''STEPS'' \<subseteq> set alphabet \<and> 3 < WORD_LENGTH
   \<and> ''STEPS'' ! 3 = CHR ''P''
   \<and> \<not> isl (fst (color_guess (round_statuses ''STEPS'' LETTER_STATUS [''SLEEP'']) ''STEPS'' ''STEPS''))
   \<and> letter_state (round_statuses ''STEPS'' LETTER_STATUS [''SLEEP'']) CHR ''P'' = Present
   \<and> classify (projr (fst (color_guess (round_statuses ''STEPS'' LETTER_STATUS [''SLEEP''])
         ''STEPS'' ''STEPS''))) 3 = Correct
   \<and> letter_state (snd (color_guess (round_statuses ''STEPS'' LETTER_STATUS [''SLEEP''])
         ''STEPS'' ''STEPS'')) CHR ''P'' = Correct"
proof -
  let ?ls = "round_statuses ''STEPS'' LETTER_STATUS [''SLEEP'']"
  let ?t = "projr (fst (color_guess ?ls ''STEPS'' ''STEPS''))"
  have h: "\<forall>g\<in>set [''SLEEP'']. length g = WORD_LENGTH \<and> set g \<subseteq> set alphabet"
    "length ''STEPS'' = WORD_LENGTH" "set ''STEPS'' \<subseteq> set alphabet"
    by (simp_all add: WORD_LENGTH_def alphabet_def)
  have i: "3 < WORD_LENGTH" "''STEPS'' ! 3 = CHR ''P''" by (simp_all add: WORD_LENGTH_def)
  have r: "fst (color_guess ?ls ''STEPS'' ''STEPS'') = Inr ?t" by code_simp
  have nl: "\<not> isl (fst (color_guess ?ls ''STEPS'' ''STEPS''))" by code_simp
  have s: "letter_state ?ls CHR ''P'' = Present" by code_simp
  have c: "classify ?t 3 = Correct" by code_simp
  from status_replaced_by_better_candidate[OF h r, of "CHR ''P''"] i(1)
  have "rank (letter_state ?ls (''STEPS'' ! 3)) < rank (classify ?t 3)
      \<longrightarrow> rank (classify ?t 3)
        \<le> rank (letter_state (snd (color_guess ?ls ''STEPS'' ''STEPS'')) (''STEPS'' ! 3))"
    by blast
  then have "rank Correct \<le> rank (letter_state (snd (color_guess ?ls ''STEPS'' ''STEPS'')) CHR ''P'')"
    unfolding i(2) s c by simp
  then have "letter_state (snd (color_guess ?ls ''STEPS'' ''STEPS'')) CHR ''P'' = Correct"
    by (simp add: rank_Correct_iff)
  with h i nl s c show ?thesis by blast
qed

end
